theory Spec2Isabelle
  imports Main
begin

section \<open>Strings\<close>

text \<open>
  A JavaScript string is a sequence of UTF-16 code units. The model uses \<^typ>\<open>string\<close>,
  one \<^typ>\<open>char\<close> for each code unit, so it covers the strings whose code units are below
  256; \<open>length\<close>, indexing and \<open>substring\<close> count code units as the source does.
\<close>

abbreviation DQUOTE :: char where "DQUOTE \<equiv> CHR 0x22"
abbreviation BACKSLASH :: char where "BACKSLASH \<equiv> CHR 0x5C"
abbreviation LF :: char where "LF \<equiv> CHR 0x0A"
abbreviation CR :: char where "CR \<equiv> CHR 0x0D"
abbreviation TAB :: char where "TAB \<equiv> CHR 0x09"

text \<open>
  \<open>String.prototype.trim\<close> removes WhiteSpace and LineTerminator code units from both
  ends: below 256 these are TAB, LF, VT, FF, CR, SPACE and NBSP.
\<close>

definition js_whitespace :: "char \<Rightarrow> bool" where
  "js_whitespace c \<longleftrightarrow>
     c = TAB \<or> c = LF \<or> c = CHR 0x0B \<or> c = CHR 0x0C \<or> c = CR \<or> c = CHR 0x20 \<or> c = CHR 0xA0"

definition trim :: "string \<Rightarrow> string" where
  "trim s = rev (dropWhile js_whitespace (rev (dropWhile js_whitespace s)))"

definition startsWith :: "string \<Rightarrow> string \<Rightarrow> bool" where
  "startsWith s p \<longleftrightarrow> take (length p) s = p"

definition endsWith :: "string \<Rightarrow> string \<Rightarrow> bool" where
  "endsWith s p \<longleftrightarrow> length p \<le> length s \<and> drop (length s - length p) s = p"

text \<open>\<open>s.slice(n)\<close> for \<open>n \<ge> 0\<close>, and \<open>s.slice(0, -n)\<close>.\<close>

definition slice_from :: "nat \<Rightarrow> string \<Rightarrow> string" where
  "slice_from n s = drop n s"

definition slice_drop_last :: "nat \<Rightarrow> string \<Rightarrow> string" where
  "slice_drop_last n s = take (length s - n) s"

text \<open>\<open>s.substring(0, n)\<close>.\<close>

definition substring0 :: "nat \<Rightarrow> string \<Rightarrow> string" where
  "substring0 n s = take n s"

section \<open>The JSON repair engine: \<open>sanitizeJsonResponse\<close> (app/lib/gemini-client.ts)\<close>

text \<open>What the loop appends for one character met inside a string literal.\<close>

definition escape_in_string :: "char \<Rightarrow> string" where
  "escape_in_string c =
     (if c = LF then [BACKSLASH, CHR ''n'']
      else if c = CR then [BACKSLASH, CHR ''r'']
      else if c = TAB then [BACKSLASH, CHR ''t'']
      else [c])"

text \<open>
  The \<open>while (i < cleaned.length)\<close> loop, with its variables \<open>i\<close>, \<open>inString\<close> and
  \<open>result\<close>. A double quote toggles \<open>inString\<close> when it is the first character or the
  character before it is not a backslash.
\<close>

function sanitize_loop :: "string \<Rightarrow> nat \<Rightarrow> bool \<Rightarrow> string \<Rightarrow> string" where
  "sanitize_loop cleaned i inString result =
     (if i < length cleaned then
        (let c = cleaned ! i in
         if c = DQUOTE \<and> (i = 0 \<or> cleaned ! (i - 1) \<noteq> BACKSLASH)
         then sanitize_loop cleaned (i + 1) (\<not> inString) (result @ [c])
         else if inString
         then sanitize_loop cleaned (i + 1) inString (result @ escape_in_string c)
         else sanitize_loop cleaned (i + 1) inString (result @ [c]))
      else result)"
  by pat_completeness auto
termination
  by (relation "measure (\<lambda>(cleaned, i, inString, result). length cleaned - i)") auto

declare sanitize_loop.simps [simp del]

text \<open>The code-fence stripping between the two calls of \<open>trim\<close>.\<close>

definition strip_fences :: "string \<Rightarrow> string" where
  "strip_fences cleaned =
     (let cleaned1 =
            (if startsWith cleaned ''```json'' then slice_from 7 cleaned
             else if startsWith cleaned ''```'' then slice_from 3 cleaned
             else cleaned)
      in if endsWith cleaned1 ''```'' then slice_drop_last 3 cleaned1 else cleaned1)"

definition sanitizeJsonResponse :: "string \<Rightarrow> string" where
  "sanitizeJsonResponse raw = sanitize_loop (trim (strip_fences (trim raw))) 0 False []"

text \<open>
  The same loop by recursion on the characters still to be read: \<open>prevBackslash\<close> tells
  whether \<open>cleaned[i - 1]\<close> exists and is a backslash.
\<close>

fun scan :: "bool \<Rightarrow> bool \<Rightarrow> string \<Rightarrow> string" where
  "scan inString prevBackslash [] = []"
| "scan inString prevBackslash (c # cs) =
     (if c = DQUOTE \<and> \<not> prevBackslash then c # scan (\<not> inString) False cs
      else if inString then escape_in_string c @ scan inString (c = BACKSLASH) cs
      else c # scan inString (c = BACKSLASH) cs)"

section \<open>\<open>JSON.parse\<close>\<close>

text \<open>
  The built-in parser, as ECMA-404 defines the grammar. A string value is the list of its
  code units (an escape \<open>\uXXXX\<close> can denote any of them); a number keeps its lexeme, so
  equal values of the model are equal JavaScript values; an object keeps its members in
  source order.
\<close>

datatype json =
    JNull
  | JBool bool
  | JNumber string
  | JString "nat list"
  | JArray "json list"
  | JObject "(nat list \<times> json) list"

datatype token =
    TLBrace | TRBrace | TLBracket | TRBracket | TColon | TComma
  | TString "nat list" | TNumber string | TTrue | TFalse | TNull

definition json_whitespace :: "char \<Rightarrow> bool" where
  "json_whitespace c \<longleftrightarrow> c = TAB \<or> c = LF \<or> c = CR \<or> c = CHR 0x20"

definition is_digit :: "char \<Rightarrow> bool" where
  "is_digit c \<longleftrightarrow> c \<in> set ''0123456789''"

definition hex_value :: "char \<Rightarrow> nat option" where
  "hex_value c = map_of (zip ''0123456789abcdef'' [0..<16] @ zip ''ABCDEF'' [10..<16]) c"

definition unescape :: "char \<Rightarrow> nat option" where
  "unescape e =
     (if e = DQUOTE then Some 0x22
      else if e = BACKSLASH then Some 0x5C
      else if e = CHR ''/'' then Some 0x2F
      else if e = CHR ''b'' then Some 0x08
      else if e = CHR ''f'' then Some 0x0C
      else if e = CHR ''n'' then Some 0x0A
      else if e = CHR ''r'' then Some 0x0D
      else if e = CHR ''t'' then Some 0x09
      else None)"

definition units :: "string \<Rightarrow> nat list" where
  "units s = map of_char s"

fun lex_string :: "string \<Rightarrow> (nat list \<times> string) option" where
  "lex_string [] = None"
| "lex_string (c # cs) =
     (if c = DQUOTE then Some ([], cs)
      else if c = BACKSLASH then
        (case cs of
           [] \<Rightarrow> None
         | e # cs1 \<Rightarrow>
             if e = CHR ''u'' then
               (case cs1 of
                  h1 # h2 # h3 # h4 # cs2 \<Rightarrow>
                    (case (hex_value h1, hex_value h2, hex_value h3, hex_value h4) of
                       (Some d1, Some d2, Some d3, Some d4) \<Rightarrow>
                         map_option (\<lambda>(v, r). ((((d1 * 16 + d2) * 16 + d3) * 16 + d4) # v, r))
                                    (lex_string cs2)
                     | _ \<Rightarrow> None)
                | _ \<Rightarrow> None)
             else (case unescape e of
                     None \<Rightarrow> None
                   | Some u \<Rightarrow> map_option (\<lambda>(v, r). (u # v, r)) (lex_string cs1)))
      else if (of_char c :: nat) < 0x20 then None
      else map_option (\<lambda>(v, r). (of_char c # v, r)) (lex_string cs))"

definition lex_digits :: "string \<Rightarrow> (string \<times> string) option" where
  "lex_digits s = (if takeWhile is_digit s = [] then None
                   else Some (takeWhile is_digit s, dropWhile is_digit s))"

definition lex_int :: "string \<Rightarrow> (string \<times> string) option" where
  "lex_int s = (case s of
                  [] \<Rightarrow> None
                | c # r \<Rightarrow> if c = CHR ''0'' then Some ([c], r) else lex_digits s)"

definition lex_frac :: "string \<Rightarrow> (string \<times> string) option" where
  "lex_frac s = (case s of
                   [] \<Rightarrow> Some ([], s)
                 | c # r \<Rightarrow> if c = CHR ''.''
                            then map_option (\<lambda>(ds, r'). (c # ds, r')) (lex_digits r)
                            else Some ([], s))"

definition lex_exp :: "string \<Rightarrow> (string \<times> string) option" where
  "lex_exp s = (case s of
                  [] \<Rightarrow> Some ([], s)
                | c # r \<Rightarrow>
                    if c = CHR ''e'' \<or> c = CHR ''E'' then
                      (case r of
                         [] \<Rightarrow> None
                       | g # r' \<Rightarrow>
                           if g = CHR ''+'' \<or> g = CHR ''-''
                           then map_option (\<lambda>(ds, r''). (c # g # ds, r'')) (lex_digits r')
                           else map_option (\<lambda>(ds, r''). (c # ds, r'')) (lex_digits r))
                    else Some ([], s))"

definition lex_number :: "string \<Rightarrow> (string \<times> string) option" where
  "lex_number s =
     (let (sign, s0) = (case s of [] \<Rightarrow> ([], s) | c # r \<Rightarrow> if c = CHR ''-'' then ([c], r) else ([], s))
      in case lex_int s0 of
           None \<Rightarrow> None
         | Some (ip, s1) \<Rightarrow>
             (case lex_frac s1 of
                None \<Rightarrow> None
              | Some (fp, s2) \<Rightarrow>
                  (case lex_exp s2 of
                     None \<Rightarrow> None
                   | Some (ep, s3) \<Rightarrow> Some (sign @ ip @ fp @ ep, s3))))"

function lex :: "string \<Rightarrow> token list option" where
  "lex [] = Some []"
| "lex (c # cs) =
     (if json_whitespace c then lex cs
      else if c = CHR ''{'' then map_option ((#) TLBrace) (lex cs)
      else if c = CHR ''}'' then map_option ((#) TRBrace) (lex cs)
      else if c = CHR ''['' then map_option ((#) TLBracket) (lex cs)
      else if c = CHR '']'' then map_option ((#) TRBracket) (lex cs)
      else if c = CHR '':'' then map_option ((#) TColon) (lex cs)
      else if c = CHR '','' then map_option ((#) TComma) (lex cs)
      else if c = DQUOTE then
        (case lex_string cs of
           None \<Rightarrow> None
         | Some (v, r) \<Rightarrow> map_option ((#) (TString v)) (lex r))
      else if c = CHR ''-'' \<or> is_digit c then
        (case lex_number (c # cs) of
           None \<Rightarrow> None
         | Some (n, r) \<Rightarrow> map_option ((#) (TNumber n)) (lex r))
      else if take 4 (c # cs) = ''true'' then map_option ((#) TTrue) (lex (drop 4 (c # cs)))
      else if take 5 (c # cs) = ''false'' then map_option ((#) TFalse) (lex (drop 5 (c # cs)))
      else if take 4 (c # cs) = ''null'' then map_option ((#) TNull) (lex (drop 4 (c # cs)))
      else None)"
  by pat_completeness auto
termination
proof (relation "measure length", goal_cases)
  have digits: "lex_digits s = Some (d, r) \<Longrightarrow> length r < length s" for s d r
    by (cases s) (auto simp: lex_digits_def length_dropWhile_le less_Suc_eq_le split: if_splits)
  have int_part: "lex_int s = Some (d, r) \<Longrightarrow> length r < length s" for s d r
    by (cases s) (auto simp: lex_int_def dest: digits split: if_splits)
  have frac_part: "lex_frac s = Some (d, r) \<Longrightarrow> length r \<le> length s" for s d r
    by (cases s) (auto simp: lex_frac_def dest: digits split: if_splits)
  have exp_part: "lex_exp s = Some (d, r) \<Longrightarrow> length r \<le> length s" for s d r
    by (cases s) (auto simp: lex_exp_def dest: digits split: if_splits list.splits)
  have number: "lex_number s = Some (n, r) \<Longrightarrow> length r < length s" for s n r
    by (cases s)
       (auto simp: lex_number_def split: option.splits if_splits
             dest!: int_part frac_part exp_part)
  have literal: "lex_string s = Some (v, r) \<Longrightarrow> length r < Suc (length s)" for s v r
  proof (induction s arbitrary: v r rule: lex_string.induct)
    case 1
    then show ?case by simp
  next
    case (2 c cs)
    from "2.prems" "2.IH" show ?case
      by (simp split: if_splits list.splits option.splits prod.splits) fastforce+
  qed
  {
    case 1 show ?case by simp
  next
    case (2 c cs) show ?case by simp
  next
    case (3 c cs) show ?case by simp
  next
    case (4 c cs) show ?case by simp
  next
    case (5 c cs) show ?case by simp
  next
    case (6 c cs) show ?case by simp
  next
    case (7 c cs) show ?case by simp
  next
    case (8 c cs) show ?case by simp
  next
    case (9 c cs x2 x y)
    then have "lex_string cs = Some (x, y)" by simp
    from literal [OF this] show ?case by simp
  next
    case (10 c cs x2 x y)
    then have "lex_number (c # cs) = Some (x, y)" by simp
    from number [OF this] show ?case by simp
  next
    case (11 c cs) show ?case by simp
  next
    case (12 c cs) show ?case by simp
  next
    case (13 c cs) show ?case by simp
  }
qed

text \<open>
  Values, array elements after \<open>[\<close> and object members after \<open>{\<close>. The tests
  \<open>length r' < length ts\<close> only make the recursion visibly terminating: what is left after a
  value is always shorter than what the value was read from.
\<close>

fun parse_value :: "token list \<Rightarrow> (json \<times> token list) option"
  and parse_elements :: "token list \<Rightarrow> (json list \<times> token list) option"
  and parse_members :: "token list \<Rightarrow> ((nat list \<times> json) list \<times> token list) option"
where
  "parse_value [] = None"
| "parse_value (t # ts) =
     (case t of
        TNull \<Rightarrow> Some (JNull, ts)
      | TTrue \<Rightarrow> Some (JBool True, ts)
      | TFalse \<Rightarrow> Some (JBool False, ts)
      | TNumber n \<Rightarrow> Some (JNumber n, ts)
      | TString s \<Rightarrow> Some (JString s, ts)
      | TLBracket \<Rightarrow>
          (case ts of
             TRBracket # r \<Rightarrow> Some (JArray [], r)
           | _ \<Rightarrow> map_option (\<lambda>(vs, r). (JArray vs, r)) (parse_elements ts))
      | TLBrace \<Rightarrow>
          (case ts of
             TRBrace # r \<Rightarrow> Some (JObject [], r)
           | _ \<Rightarrow> map_option (\<lambda>(ms, r). (JObject ms, r)) (parse_members ts))
      | _ \<Rightarrow> None)"
| "parse_elements ts =
     (case parse_value ts of
        None \<Rightarrow> None
      | Some (v, r) \<Rightarrow>
          (case r of
             TRBracket # r' \<Rightarrow> Some ([v], r')
           | TComma # r' \<Rightarrow>
               if length r' < length ts
               then map_option (\<lambda>(vs, r''). (v # vs, r'')) (parse_elements r')
               else None
           | _ \<Rightarrow> None))"
| "parse_members ts =
     (case ts of
        TString k # TColon # ts1 \<Rightarrow>
          (case parse_value ts1 of
             None \<Rightarrow> None
           | Some (v, r) \<Rightarrow>
               (case r of
                  TRBrace # r' \<Rightarrow> Some ([(k, v)], r')
                | TComma # r' \<Rightarrow>
                    if length r' < length ts
                    then map_option (\<lambda>(ms, r''). ((k, v) # ms, r'')) (parse_members r')
                    else None
                | _ \<Rightarrow> None))
      | _ \<Rightarrow> None)"

definition json_parse :: "string \<Rightarrow> json option" where
  "json_parse s =
     (case lex s of
        None \<Rightarrow> None
      | Some ts \<Rightarrow>
          (case parse_value ts of
             Some (v, []) \<Rightarrow> Some v
           | _ \<Rightarrow> None))"

section \<open>The model gateway: \<open>GeminiClient\<close> (app/lib/gemini-client.ts)\<close>

text \<open>
  A thrown JavaScript \<open>Error\<close> with its message. The constructor records where it comes
  from: the model service, the gateway's JSON parsing, the document reader or the file
  system.
\<close>

datatype error =
    ModelCallError string
  | ModelOutputParseError string
  | DocumentReadError string
  | FileWriteError string

fun message :: "error \<Rightarrow> string" where
  "message (ModelCallError m) = m"
| "message (ModelOutputParseError m) = m"
| "message (DocumentReadError m) = m"
| "message (FileWriteError m) = m"

record token_usage =
  promptTokens :: nat
  completionTokens :: nat
  totalTokens :: nat

definition zero_usage :: token_usage where
  "zero_usage = \<lparr>promptTokens = 0, completionTokens = 0, totalTokens = 0\<rparr>"

text \<open>
  What \<open>ai.models.generateContent\<close> resolves to: \<open>response.text\<close> and
  \<open>response.usageMetadata\<close>, each possibly undefined (\<open>None\<close>).
\<close>

record usage_metadata =
  promptTokenCount :: "nat option"
  candidatesTokenCount :: "nat option"
  totalTokenCount :: "nat option"

record api_response =
  response_text :: "string option"
  usageMetadata :: "usage_metadata option"

text \<open>\<open>GeminiResponse<T>\<close>.\<close>

record 'd gemini_response =
  data :: 'd
  usage :: token_usage

record gemini_client =
  cumulativeUsage :: token_usage

definition new_client :: gemini_client where
  "new_client = \<lparr>cumulativeUsage = zero_usage\<rparr>"

definition updateUsage :: "gemini_client \<Rightarrow> token_usage \<Rightarrow> gemini_client" where
  "updateUsage client u =
     client\<lparr>cumulativeUsage :=
       \<lparr>promptTokens = promptTokens (cumulativeUsage client) + promptTokens u,
        completionTokens = completionTokens (cumulativeUsage client) + completionTokens u,
        totalTokens = totalTokens (cumulativeUsage client) + totalTokens u\<rparr>\<rparr>"

text \<open>\<open>response.text || ""\<close> and \<open>usageMetadata?.field || 0\<close>.\<close>

definition text_or_empty :: "api_response \<Rightarrow> string" where
  "text_or_empty response = (case response_text response of None \<Rightarrow> [] | Some t \<Rightarrow> t)"

definition count_or_zero :: "usage_metadata option \<Rightarrow> (usage_metadata \<Rightarrow> nat option) \<Rightarrow> nat" where
  "count_or_zero m field =
     (case m of None \<Rightarrow> 0 | Some u \<Rightarrow> (case field u of None \<Rightarrow> 0 | Some n \<Rightarrow> n))"

definition response_usage :: "api_response \<Rightarrow> token_usage" where
  "response_usage response =
     \<lparr>promptTokens = count_or_zero (usageMetadata response) promptTokenCount,
      completionTokens = count_or_zero (usageMetadata response) candidatesTokenCount,
      totalTokens = count_or_zero (usageMetadata response) totalTokenCount\<rparr>"

text \<open>
  The gateway methods take the outcome of \<open>await ai.models.generateContent(...)\<close> as an
  argument: \<open>Inl\<close> when the call throws, \<open>Inr\<close> with the response otherwise. The first
  argument \<open>parse\<close> is \<open>JSON.parse(text) as T\<close>: \<open>None\<close> when \<open>JSON.parse\<close> throws. They
  return the client with its updated usage counter and the value returned or the error
  thrown.
\<close>

definition analyzeImage ::
  "(string \<Rightarrow> 'd option) \<Rightarrow> gemini_client \<Rightarrow> error + api_response
     \<Rightarrow> gemini_client \<times> (error + 'd gemini_response)" where
  "analyzeImage parse client reply =
     (case reply of
        Inl e \<Rightarrow> (client, Inl e)
      | Inr response \<Rightarrow>
          (let t = text_or_empty response;
               u = response_usage response;
               client1 = updateUsage client u
           in case parse t of
                Some d \<Rightarrow> (client1, Inr \<lparr>data = d, usage = u\<rparr>)
              | None \<Rightarrow>
                  (client1,
                   Inl (ModelOutputParseError (''Failed to parse Gemini response as JSON: '' @ t)))))"

definition generateJson ::
  "(string \<Rightarrow> 'd option) \<Rightarrow> gemini_client \<Rightarrow> error + api_response
     \<Rightarrow> gemini_client \<times> (error + 'd gemini_response)" where
  "generateJson parse client reply =
     (case reply of
        Inl e \<Rightarrow> (client, Inl e)
      | Inr response \<Rightarrow>
          (let t = text_or_empty response;
               u = response_usage response;
               client1 = updateUsage client u
           in case parse t of
                Some d \<Rightarrow> (client1, Inr \<lparr>data = d, usage = u\<rparr>)
              | None \<Rightarrow>
                  (let sanitized = sanitizeJsonResponse t
                   in case parse sanitized of
                        Some d \<Rightarrow> (client1, Inr \<lparr>data = d, usage = u\<rparr>)
                      | None \<Rightarrow>
                          (client1,
                           Inl (ModelOutputParseError
                                  (''Failed to parse Gemini response as JSON: ''
                                   @ substring0 500 t @ ''...''))))))"

section \<open>The explanation backfill driver (scripts/generate-explanations.ts)\<close>

text \<open>
  \<open>Question\<close> and \<open>PaperData\<close>. The optional \<open>explanation?: string | null\<close> has three
  shapes: absent, \<open>null\<close> and a string.
\<close>

datatype explanation_field = Absent | Null | Text string

record raw_question =
  questionText :: string
  choices :: "string list"
  correctChoice :: "int option"

record question = raw_question +
  orderIndex :: int
  explanation :: explanation_field

record paper_stats =
  totalQuestions :: int
  stats_pagesProcessed :: "int option"
  tokensUsed :: "int option"
  estimatedCost :: "string option"

record paper_data =
  name :: string
  source :: string
  data_startPage :: "int option"
  data_endPage :: "int option"
  questions :: "question list"
  stats :: "paper_stats option"

text \<open>\<open>ExplanationResponse\<close>, and what \<open>generateExplanation\<close> returns.\<close>

record explanation_response =
  response_explanation :: string

record explanation_result =
  result_explanation :: string
  result_tokensUsed :: nat

text \<open>
  The world of one run: \<open>model_reply idx\<close> is the outcome of the \<open>generateContent\<close> call made
  for question \<open>idx\<close> (each pending index is called once), \<open>write_outcome n\<close> the outcome of
  the \<open>n\<close>-th call of \<open>fs.writeFile\<close>, counted from 0 (\<open>None\<close> when it succeeds).
\<close>

record backfill_world =
  model_reply :: "nat \<Rightarrow> error + api_response"
  write_outcome :: "nat \<Rightarrow> error option"

definition generateExplanation ::
  "(string \<Rightarrow> explanation_response option) \<Rightarrow> gemini_client \<Rightarrow> error + api_response
     \<Rightarrow> gemini_client \<times> (error + explanation_result)" where
  "generateExplanation parse client reply =
     (case generateJson parse client reply of
        (client1, Inl e) \<Rightarrow> (client1, Inl e)
      | (client1, Inr response) \<Rightarrow>
          (client1,
           Inr \<lparr>result_explanation = response_explanation (data response),
                result_tokensUsed = totalTokens (usage response)\<rparr>))"

text \<open>
  The variables of \<open>main\<close>: \<open>data\<close>, \<open>processed\<close>, \<open>totalTokens\<close>, \<open>errors\<close> and the
  gateway singleton, and three logs of its effects: the indices whose question was sent
  to the model, the \<open>console.error\<close> lines of the \<open>catch\<close> block (index and message), and
  the paper data passed to each call of \<open>saveCheckpoint\<close>.
\<close>

record backfill_state =
  st_data :: paper_data
  st_processed :: nat
  st_totalTokens :: nat
  st_errors :: nat
  st_client :: gemini_client
  st_calls :: "nat list"
  st_errorLog :: "(nat \<times> string) list"
  st_writes :: "paper_data list"

text \<open>\<open>if (q.explanation)\<close>: a non-empty string.\<close>

fun truthy :: "explanation_field \<Rightarrow> bool" where
  "truthy Absent = False"
| "truthy Null = False"
| "truthy (Text s) = (s \<noteq> [])"

text \<open>The loop that fills \<open>questionsToProcess\<close>.\<close>

function pending_loop :: "paper_data \<Rightarrow> bool \<Rightarrow> nat \<Rightarrow> nat list \<Rightarrow> nat list" where
  "pending_loop d skipExisting i questionsToProcess =
     (if i < length (questions d) then
        (let q = questions d ! i in
         if skipExisting \<and> truthy (explanation q)
         then pending_loop d skipExisting (i + 1) questionsToProcess
         else if correctChoice q = None
         then pending_loop d skipExisting (i + 1) questionsToProcess
         else pending_loop d skipExisting (i + 1) (questionsToProcess @ [i]))
      else questionsToProcess)"
  by pat_completeness auto
termination
  by (relation "measure (\<lambda>(d, skipExisting, i, acc). length (questions d) - i)") auto

declare pending_loop.simps [simp del]

definition questionsToProcess :: "paper_data \<Rightarrow> bool \<Rightarrow> nat list" where
  "questionsToProcess d skipExisting = pending_loop d skipExisting 0 []"

text \<open>
  \<open>processed % batchSize === 0\<close>. \<open>batchSize\<close> is \<open>parseInt(options.batchSize)\<close>: an integer,
  or \<open>NaN\<close> (\<open>None\<close>). The remainder has the sign of the dividend and is \<open>NaN\<close> when the
  divisor is \<open>0\<close> or \<open>NaN\<close>.
\<close>

definition js_rem :: "int \<Rightarrow> int option \<Rightarrow> int option" where
  "js_rem a b =
     (case b of
        None \<Rightarrow> None
      | Some n \<Rightarrow> if n = 0 then None else Some (sgn a * (\<bar>a\<bar> mod \<bar>n\<bar>)))"

definition checkpoint_due :: "nat \<Rightarrow> int option \<Rightarrow> bool" where
  "checkpoint_due n batchSize \<longleftrightarrow> js_rem (int n) batchSize = Some 0"

text \<open>
  \<open>saveCheckpoint(data, outputPath)\<close>: the call is logged with the data it serialises;
  the result is the error it throws, if any.
\<close>

definition saveCheckpoint :: "backfill_world \<Rightarrow> backfill_state \<Rightarrow> backfill_state \<times> error option" where
  "saveCheckpoint W st =
     (st\<lparr>st_writes := st_writes st @ [st_data st]\<rparr>, write_outcome W (length (st_writes st)))"

text \<open>\<open>data.questions[idx].explanation = result.explanation\<close>.\<close>

definition set_explanation :: "paper_data \<Rightarrow> nat \<Rightarrow> string \<Rightarrow> paper_data" where
  "set_explanation d idx e =
     d\<lparr>questions := (questions d)[idx := (questions d ! idx)\<lparr>explanation := Text e\<rparr>]\<rparr>"

text \<open>The \<open>catch\<close> block.\<close>

definition on_error :: "nat \<Rightarrow> error \<Rightarrow> backfill_state \<Rightarrow> backfill_state" where
  "on_error idx err st =
     st\<lparr>st_errors := st_errors st + 1, st_errorLog := st_errorLog st @ [(idx, message err)]\<rparr>"

text \<open>
  One iteration of \<open>for (const idx of questionsToProcess)\<close>. Every \<open>idx\<close> comes from
  \<open>questionsToProcess\<close>, so it is below \<open>data.questions.length\<close>.
\<close>

definition process_question ::
  "backfill_world \<Rightarrow> (string \<Rightarrow> explanation_response option) \<Rightarrow> int option \<Rightarrow> nat
     \<Rightarrow> backfill_state \<Rightarrow> backfill_state" where
  "process_question W parse batchSize idx st =
     (let st0 = st\<lparr>st_calls := st_calls st @ [idx]\<rparr>
      in case generateExplanation parse (st_client st0) (model_reply W idx) of
           (client1, Inl err) \<Rightarrow> on_error idx err (st0\<lparr>st_client := client1\<rparr>)
         | (client1, Inr result) \<Rightarrow>
             (let st1 = st0\<lparr>st_client := client1,
                            st_data := set_explanation (st_data st0) idx (result_explanation result),
                            st_totalTokens := st_totalTokens st0 + result_tokensUsed result,
                            st_processed := st_processed st0 + 1\<rparr>
              in if checkpoint_due (st_processed st1) batchSize
                 then (case saveCheckpoint W st1 of
                         (st2, None) \<Rightarrow> st2
                       | (st2, Some err) \<Rightarrow> on_error idx err st2)
                 else st1))"

fun backfill_loop ::
  "backfill_world \<Rightarrow> (string \<Rightarrow> explanation_response option) \<Rightarrow> int option \<Rightarrow> nat list
     \<Rightarrow> backfill_state \<Rightarrow> backfill_state" where
  "backfill_loop W parse batchSize [] st = st"
| "backfill_loop W parse batchSize (idx # rest) st =
     backfill_loop W parse batchSize rest (process_question W parse batchSize idx st)"

text \<open>
  How a run ends: \<open>process.exit(0)\<close> before the loop when nothing is pending,
  \<open>process.exit(0)\<close> after the summary, or \<open>process.exit(1)\<close> in \<open>main().catch\<close> when the
  final save throws.
\<close>

datatype outcome = NothingToDo | Completed | Failed error

definition initial_state :: "paper_data \<Rightarrow> backfill_state" where
  "initial_state d =
     \<lparr>st_data = d, st_processed = 0, st_totalTokens = 0, st_errors = 0, st_client = new_client,
      st_calls = [], st_errorLog = [], st_writes = []\<rparr>"

text \<open>
  \<open>main\<close> from the point where \<open>data\<close> has been read (from the input file, or from the
  output file when resuming).
\<close>

definition main ::
  "backfill_world \<Rightarrow> (string \<Rightarrow> explanation_response option) \<Rightarrow> paper_data \<Rightarrow> int option \<Rightarrow> bool
     \<Rightarrow> backfill_state \<times> outcome" where
  "main W parse d batchSize skipExisting =
     (let pending = questionsToProcess d skipExisting
      in if length pending = 0 then (initial_state d, NothingToDo)
         else (case saveCheckpoint W (backfill_loop W parse batchSize pending (initial_state d)) of
                 (st, None) \<Rightarrow> (st, Completed)
               | (st, Some err) \<Rightarrow> (st, Failed err)))"

text \<open>
  For stating properties of a run. \<open>explanation_outcome W parse idx\<close> is what
  \<open>generateExplanation\<close> gives for question \<open>idx\<close> (it does not depend on the usage
  counter); \<open>successes\<close> lists, in order, the indices whose call returned with the
  explanation returned, \<open>failures\<close> those whose call threw with the message;
  \<open>apply_explanations\<close> writes a list of explanations into the paper data.
\<close>

definition explanation_outcome ::
  "backfill_world \<Rightarrow> (string \<Rightarrow> explanation_response option) \<Rightarrow> nat \<Rightarrow> error + explanation_result" where
  "explanation_outcome W parse idx = snd (generateExplanation parse new_client (model_reply W idx))"

fun successes ::
  "backfill_world \<Rightarrow> (string \<Rightarrow> explanation_response option) \<Rightarrow> nat list \<Rightarrow> (nat \<times> string) list" where
  "successes W parse [] = []"
| "successes W parse (idx # rest) =
     (case explanation_outcome W parse idx of
        Inl e \<Rightarrow> successes W parse rest
      | Inr r \<Rightarrow> (idx, result_explanation r) # successes W parse rest)"

fun failures ::
  "backfill_world \<Rightarrow> (string \<Rightarrow> explanation_response option) \<Rightarrow> nat list \<Rightarrow> (nat \<times> string) list" where
  "failures W parse [] = []"
| "failures W parse (idx # rest) =
     (case explanation_outcome W parse idx of
        Inl e \<Rightarrow> (idx, message e) # failures W parse rest
      | Inr r \<Rightarrow> failures W parse rest)"

fun apply_explanations :: "paper_data \<Rightarrow> (nat \<times> string) list \<Rightarrow> paper_data" where
  "apply_explanations d [] = d"
| "apply_explanations d ((idx, e) # rest) = apply_explanations (set_explanation d idx e) rest"

section \<open>The page rasterizer (app/lib/pdf-processor.ts)\<close>

record page_image =
  img_pageNumber :: int
  base64 :: string
  mimeType :: string

text \<open>
  \<open>convertPdfPagesToImages\<close>. Its first argument is the outcome of reading and decoding
  the file: the error thrown by \<open>fs.readFile\<close>, \<open>pdf\<close> or the page iteration (logged and
  thrown again), or the base64 text of every page of the document, in order. The page
  index counts from 1.
\<close>

definition convertPdfPagesToImages :: "error + string list \<Rightarrow> int list \<Rightarrow> error + page_image list" where
  "convertPdfPagesToImages doc pageNumbers =
     (case doc of
        Inl e \<Rightarrow> Inl e
      | Inr pages \<Rightarrow>
          Inr (sort_key img_pageNumber
                 (map (\<lambda>(pageIndex, image).
                          \<lparr>img_pageNumber = int pageIndex, base64 = image, mimeType = ''image/png''\<rparr>)
                      (filter (\<lambda>(pageIndex, image). int pageIndex \<in> set pageNumbers)
                              (enumerate 1 pages)))))"

section \<open>The question extraction driver (app/lib/question-extractor.ts)\<close>

text \<open>
  \<open>ExtractedQuestion\<close>, \<open>PageExtractionResult\<close>, \<open>PaperExtractionResult\<close> and
  \<open>GeminiQuestionResponse\<close> (whose \<open>questions\<close> may be missing: \<open>data.questions || []\<close>).
\<close>

record extracted_question = raw_question +
  pageNumber :: int
  questionNumber :: "int option"

record page_extraction_result =
  page_pageNumber :: int
  page_questions :: "extracted_question list"
  page_usage :: token_usage

record paper_extraction_result =
  result_questions :: "extracted_question list"
  totalUsage :: token_usage
  pagesProcessed :: int

record gemini_question_response =
  response_questions :: "raw_question list option"

definition extractQuestionsFromPage ::
  "(string \<Rightarrow> gemini_question_response option) \<Rightarrow> gemini_client \<Rightarrow> page_image
     \<Rightarrow> error + api_response \<Rightarrow> gemini_client \<times> (error + page_extraction_result)" where
  "extractQuestionsFromPage parse client pageImage reply =
     (case analyzeImage parse client reply of
        (client1, Inl e) \<Rightarrow> (client1, Inl e)
      | (client1, Inr response) \<Rightarrow>
          (client1,
           Inr \<lparr>page_pageNumber = img_pageNumber pageImage,
                page_questions =
                  map (\<lambda>(idx, q).
                         \<lparr>questionText = questionText q, choices = choices q,
                          correctChoice = correctChoice q,
                          pageNumber = img_pageNumber pageImage,
                          questionNumber = Some (int idx + 1)\<rparr>)
                      (enumerate 0 (case response_questions (data response) of
                                      None \<Rightarrow> [] | Some qs \<Rightarrow> qs)),
                page_usage = usage response\<rparr>))"

text \<open>
  The world of one range extraction: \<open>document p\<close> is the outcome of reading and decoding
  the file at the call made for page \<open>p\<close>, \<open>page_reply p\<close> the outcome of the
  \<open>generateContent\<close> call made for page \<open>p\<close>.
\<close>

record extraction_world =
  document :: "int \<Rightarrow> error + string list"
  page_reply :: "int \<Rightarrow> error + api_response"

text \<open>
  The variables of \<open>extractQuestionsFromPages\<close> and the gateway singleton, with two logs
  of its effects: the pages warned about (\<open>console.warn\<close>) and the argument triples of
  the \<open>onProgress\<close> calls, in order.
\<close>

record extraction_state =
  ex_client :: gemini_client
  allQuestions :: "extracted_question list"
  ex_totalUsage :: token_usage
  ex_warnings :: "int list"
  ex_progress :: "(int \<times> int \<times> nat) list"

definition add_usage :: "token_usage \<Rightarrow> token_usage \<Rightarrow> token_usage" where
  "add_usage a b =
     \<lparr>promptTokens = promptTokens a + promptTokens b,
      completionTokens = completionTokens a + completionTokens b,
      totalTokens = totalTokens a + totalTokens b\<rparr>"

text \<open>
  The \<open>for (let pageNum = startPage; pageNum <= endPage; pageNum++)\<close> loop.
  \<open>onProgress\<close> tells whether a callback was supplied. The loop returns the state it
  reached and the error that left it, if any.
\<close>

function extract_loop ::
  "extraction_world \<Rightarrow> (string \<Rightarrow> gemini_question_response option) \<Rightarrow> bool \<Rightarrow> int \<Rightarrow> int
     \<Rightarrow> int \<Rightarrow> extraction_state \<Rightarrow> extraction_state \<times> error option" where
  "extract_loop W parse onProgress startPage endPage pageNum st =
     (if pageNum \<le> endPage then
        (case convertPdfPagesToImages (document W pageNum) [pageNum] of
           Inl e \<Rightarrow> (st, Some e)
         | Inr pageImages \<Rightarrow>
             if length pageImages = 0
             then extract_loop W parse onProgress startPage endPage (pageNum + 1)
                    (st\<lparr>ex_warnings := ex_warnings st @ [pageNum]\<rparr>)
             else (case extractQuestionsFromPage parse (ex_client st) (pageImages ! 0)
                          (page_reply W pageNum) of
                     (client1, Inl e) \<Rightarrow> (st\<lparr>ex_client := client1\<rparr>, Some e)
                   | (client1, Inr result) \<Rightarrow>
                       extract_loop W parse onProgress startPage endPage (pageNum + 1)
                         (st\<lparr>ex_client := client1,
                             allQuestions := allQuestions st @ page_questions result,
                             ex_totalUsage := add_usage (ex_totalUsage st) (page_usage result),
                             ex_progress :=
                               (if onProgress
                                then ex_progress st @
                                       [(pageNum - startPage + 1, endPage - startPage + 1,
                                         length (page_questions result))]
                                else ex_progress st)\<rparr>)))
      else (st, None))"
  by pat_completeness auto
termination
  by (relation "measure (\<lambda>(W, parse, onProgress, startPage, endPage, pageNum, st).
                           nat (endPage + 1 - pageNum))") auto

declare extract_loop.simps [simp del]

text \<open>\<open>allQuestions.forEach((q, idx) => { q.questionNumber = idx + 1; })\<close>.\<close>

definition renumber :: "extracted_question list \<Rightarrow> extracted_question list" where
  "renumber qs = map (\<lambda>(idx, q). q\<lparr>questionNumber := Some (int idx + 1)\<rparr>) (enumerate 0 qs)"

definition initial_extraction :: extraction_state where
  "initial_extraction =
     \<lparr>ex_client = new_client, allQuestions = [], ex_totalUsage = zero_usage,
      ex_warnings = [], ex_progress = []\<rparr>"

text \<open>
  \<open>extractQuestionsFromPages\<close> gives the state the loop reached (with the logs of its
  effects) and either the error thrown or the \<open>PaperExtractionResult\<close> returned.
\<close>

definition extractQuestionsFromPages ::
  "extraction_world \<Rightarrow> (string \<Rightarrow> gemini_question_response option) \<Rightarrow> bool \<Rightarrow> int \<Rightarrow> int
     \<Rightarrow> extraction_state \<times> (error + paper_extraction_result)" where
  "extractQuestionsFromPages W parse onProgress startPage endPage =
     (case extract_loop W parse onProgress startPage endPage startPage initial_extraction of
        (st, Some e) \<Rightarrow> (st, Inl e)
      | (st, None) \<Rightarrow>
          (st, Inr \<lparr>result_questions = renumber (allQuestions st),
                    totalUsage = ex_totalUsage st,
                    pagesProcessed = endPage - startPage + 1\<rparr>))"

text \<open>
  For stating properties of a range extraction. \<open>page_step W parse p\<close> is what the loop
  body does for page \<open>p\<close> (it does not depend on the usage counter): no image, an
  extraction result, or an error that leaves the loop. \<open>pages_reached\<close> lists the pages
  before the first such error and \<open>first_abort\<close> gives that error.
\<close>

datatype page_step = NoImage | Extracted page_extraction_result | Aborted error

definition page_step ::
  "extraction_world \<Rightarrow> (string \<Rightarrow> gemini_question_response option) \<Rightarrow> int \<Rightarrow> page_step" where
  "page_step W parse p =
     (case convertPdfPagesToImages (document W p) [p] of
        Inl e \<Rightarrow> Aborted e
      | Inr pageImages \<Rightarrow>
          if length pageImages = 0 then NoImage
          else (case snd (extractQuestionsFromPage parse new_client (pageImages ! 0) (page_reply W p)) of
                  Inl e \<Rightarrow> Aborted e
                | Inr result \<Rightarrow> Extracted result))"

fun questions_of :: "page_step \<Rightarrow> extracted_question list" where
  "questions_of (Extracted result) = page_questions result"
| "questions_of NoImage = []"
| "questions_of (Aborted e) = []"

fun progress_of :: "int \<Rightarrow> int \<Rightarrow> int \<Rightarrow> page_step \<Rightarrow> (int \<times> int \<times> nat) list" where
  "progress_of startPage endPage p (Extracted result) =
     [(p - startPage + 1, endPage - startPage + 1, length (page_questions result))]"
| "progress_of startPage endPage p NoImage = []"
| "progress_of startPage endPage p (Aborted e) = []"

fun abort_of :: "page_step \<Rightarrow> error option" where
  "abort_of (Aborted e) = Some e"
| "abort_of NoImage = None"
| "abort_of (Extracted result) = None"

definition pages_reached ::
  "extraction_world \<Rightarrow> (string \<Rightarrow> gemini_question_response option) \<Rightarrow> int \<Rightarrow> int \<Rightarrow> int list" where
  "pages_reached W parse p endPage = takeWhile (\<lambda>q. abort_of (page_step W parse q) = None) [p..endPage]"

definition first_abort ::
  "extraction_world \<Rightarrow> (string \<Rightarrow> gemini_question_response option) \<Rightarrow> int \<Rightarrow> int \<Rightarrow> error option" where
  "first_abort W parse p endPage =
     (case dropWhile (\<lambda>q. abort_of (page_step W parse q) = None) [p..endPage] of
        [] \<Rightarrow> None
      | q # qs \<Rightarrow> abort_of (page_step W parse q))"

section \<open>Typed views of parsed JSON\<close>

text \<open>
  \<open>JSON.parse(text) as T\<close> for the two response types, on the texts whose value has the
  declared shape of \<open>T\<close> with strings of code units below 256 and array indices written
  as plain digits; \<open>None\<close> on every other text. A member is looked up as JavaScript
  does, the last duplicate winning. The gateway and the drivers take their parser as an
  argument; these two are the parsers of the examples.
\<close>

definition member :: "(nat list \<times> json) list \<Rightarrow> string \<Rightarrow> json option" where
  "member ms k = map_of (rev ms) (units k)"

definition text_of :: "json \<Rightarrow> string option" where
  "text_of j = (case j of JString v \<Rightarrow> Some (map char_of v) | _ \<Rightarrow> None)"

definition texts_of :: "json \<Rightarrow> string list option" where
  "texts_of j = (case j of JArray vs \<Rightarrow> those (map text_of vs) | _ \<Rightarrow> None)"

definition index_of :: "json \<Rightarrow> int option option" where
  "index_of j =
     (case j of
        JNull \<Rightarrow> Some None
      | JNumber n \<Rightarrow>
          if n \<noteq> [] \<and> list_all is_digit n
          then Some (Some (int (foldl (\<lambda>a c. 10 * a + (of_char c - 48)) 0 n)))
          else None
      | _ \<Rightarrow> None)"

definition raw_question_of :: "json \<Rightarrow> raw_question option" where
  "raw_question_of j =
     (case j of
        JObject ms \<Rightarrow>
          (case (Option.bind (member ms ''questionText'') text_of,
                 Option.bind (member ms ''choices'') texts_of,
                 Option.bind (member ms ''correctChoice'') index_of) of
             (Some t, Some cs, Some c) \<Rightarrow>
               Some \<lparr>questionText = t, choices = cs, correctChoice = c\<rparr>
           | _ \<Rightarrow> None)
      | _ \<Rightarrow> None)"

definition parse_explanation_response :: "string \<Rightarrow> explanation_response option" where
  "parse_explanation_response t =
     (case json_parse t of
        Some (JObject ms) \<Rightarrow>
          map_option (\<lambda>e. \<lparr>response_explanation = e\<rparr>)
                     (Option.bind (member ms ''explanation'') text_of)
      | _ \<Rightarrow> None)"

definition parse_question_response :: "string \<Rightarrow> gemini_question_response option" where
  "parse_question_response t =
     (case json_parse t of
        Some (JObject ms) \<Rightarrow>
          (case member ms ''questions'' of
             None \<Rightarrow> Some \<lparr>response_questions = None\<rparr>
           | Some (JArray qs) \<Rightarrow>
               map_option (\<lambda>l. \<lparr>response_questions = Some l\<rparr>) (those (map raw_question_of qs))
           | _ \<Rightarrow> None)
      | _ \<Rightarrow> None)"

section \<open>JSON texts for stating properties of the repair\<close>

text \<open>
  \<open>plain_char\<close>: a character a JSON string literal may contain unescaped. \<open>content_char\<close>:
  such a character, or a raw line feed, carriage return or tab. \<open>object_text k v\<close>: the
  text of an object with the one member \<open>k\<close> whose value is the string literal around \<open>v\<close>,
  both written as they are. \<open>fenced t\<close>: \<open>t\<close> inside a \<open>json\<close> code fence.

  \<open>body_value b\<close>: the code units that \<open>JSON.parse\<close> reads from the text \<open>b\<close> placed between the
  quotes of a string literal, escape sequences included; \<open>None\<close> when \<open>b\<close> is not the whole text
  of a string literal (an unescaped quote or control character, an unfinished escape).
  \<open>spaced_object w1 w2 w3 w4 k v\<close>: the text of an object with the one member \<open>k\<close> and the
  string literal around \<open>v\<close>, with the texts \<open>w1\<close> .. \<open>w4\<close> between its tokens.
\<close>

definition plain_char :: "char \<Rightarrow> bool" where
  "plain_char c \<longleftrightarrow> c \<noteq> DQUOTE \<and> c \<noteq> BACKSLASH \<and> (0x20 :: nat) \<le> of_char c"

definition object_text :: "string \<Rightarrow> string \<Rightarrow> string" where
  "object_text k v = ''{'' @ [DQUOTE] @ k @ [DQUOTE] @ '': '' @ [DQUOTE] @ v @ [DQUOTE] @ ''}''"

definition fenced :: "string \<Rightarrow> string" where
  "fenced t = ''```json'' @ [LF] @ t @ [LF] @ ''```''"

definition content_char :: "char \<Rightarrow> bool" where
  "content_char c \<longleftrightarrow> plain_char c \<or> c = LF \<or> c = CR \<or> c = TAB"

definition body_value :: "string \<Rightarrow> nat list option" where
  "body_value b = (case lex_string (b @ [DQUOTE]) of Some (v, []) \<Rightarrow> Some v | _ \<Rightarrow> None)"

definition spaced_object :: "string \<Rightarrow> string \<Rightarrow> string \<Rightarrow> string \<Rightarrow> string \<Rightarrow> string \<Rightarrow> string" where
  "spaced_object w1 w2 w3 w4 k v =
     ''{'' @ w1 @ [DQUOTE] @ k @ [DQUOTE] @ w2 @ '':'' @ w3 @ [DQUOTE] @ v @ [DQUOTE] @ w4 @ ''}''"

section \<open>Examples\<close>

definition reply_with :: "string \<Rightarrow> api_response" where
  "reply_with t =
     \<lparr>response_text = Some t,
      usageMetadata = Some \<lparr>promptTokenCount = Some 40, candidatesTokenCount = Some 20,
                              totalTokenCount = Some 60\<rparr>\<rparr>"

definition two_questions :: string where
  "two_questions = ''{\"questions\":[{\"questionText\":\"Q1\",\"choices\":[\"a\",\"b\"],\"correctChoice\":1},{\"questionText\":\"Q2\",\"choices\":[\"c\",\"d\"],\"correctChoice\":null}]}''"

definition no_questions :: string where
  "no_questions = ''{\"questions\": []}''"

definition one_question :: string where
  "one_question = ''{\"questions\":[{\"questionText\":\"Q3\",\"choices\":[\"e\",\"f\"],\"correctChoice\":0}]}''"

definition example_pages :: extraction_world where
  "example_pages =
     \<lparr>document = (\<lambda>p. Inr [''iVBORw0KGgo='', ''iVBORw0KGgp='', ''iVBORw0KGgq='']),
      page_reply = (\<lambda>p. if p = 1 then Inr (reply_with two_questions)
                          else if p = 2 then Inr (reply_with no_questions)
                          else Inr (reply_with one_question))\<rparr>"

definition example_question :: "int \<Rightarrow> int option \<Rightarrow> explanation_field \<Rightarrow> question" where
  "example_question i c e =
     \<lparr>questionText = ''Which nerve?'', choices = [''Ulnar'', ''Median'', ''Radial''],
      correctChoice = c, orderIndex = i, explanation = e\<rparr>"

definition example_paper :: paper_data where
  "example_paper =
     \<lparr>name = ''Paper 1'', source = ''SK'', data_startPage = Some 1, data_endPage = Some 3,
      questions =
        [example_question 0 (Some 1) Absent,
         example_question 1 None Absent,
         example_question 2 (Some 0) Null,
         example_question 3 (Some 2) (Text ''old''),
         example_question 4 (Some 1) Absent,
         example_question 5 (Some 0) Absent],
      stats = None\<rparr>"

definition example_reply :: api_response where
  "example_reply = reply_with ''{\"explanation\": \"Median nerve.\"}''"

definition example_world :: backfill_world where
  "example_world =
     \<lparr>model_reply = (\<lambda>idx. if idx = 3 then Inl (ModelCallError ''fetch failed'')
                             else Inr example_reply),
      write_outcome = (\<lambda>n. None)\<rparr>"

definition reliable_world :: backfill_world where
  "reliable_world = \<lparr>model_reply = (\<lambda>idx. Inr example_reply), write_outcome = (\<lambda>n. None)\<rparr>"

definition unanswered_paper :: paper_data where
  "unanswered_paper = example_paper\<lparr>questions := [example_question 0 None Absent]\<rparr>"

definition long_paper :: paper_data where
  "long_paper =
     example_paper\<lparr>questions := map (\<lambda>i. example_question (int i) (Some 0) Absent) [0..<23]\<rparr>"

definition fenced_no_questions :: string where
  "fenced_no_questions = ''```json'' @ [LF] @ no_questions @ [LF] @ ''```''"

definition fenced_pages :: extraction_world where
  "fenced_pages =
     example_pages\<lparr>page_reply := (\<lambda>p. if p = 2 then Inr (reply_with fenced_no_questions)
                                        else page_reply example_pages p)\<rparr>"

section \<open>The repair loop as a scan\<close>

lemma sanitize_loop_scan:
  "i \<le> length cleaned \<Longrightarrow>
   sanitize_loop cleaned i inString result =
     result @ scan inString (0 < i \<and> cleaned ! (i - 1) = BACKSLASH) (drop i cleaned)"
proof (induction cleaned i inString result rule: sanitize_loop.induct)
  case (1 cleaned i inString result)
  show ?case
  proof (cases "i < length cleaned")
    case True
    then have d: "drop i cleaned = cleaned ! i # drop (Suc i) cleaned"
      by (simp add: Cons_nth_drop_Suc)
    from True 1 show ?thesis
      by (subst sanitize_loop.simps) (auto simp: d Let_def)
  next
    case False
    with 1 show ?thesis by (subst sanitize_loop.simps) simp
  qed
qed

lemma sanitizeJsonResponse_scan:
  "sanitizeJsonResponse raw = scan False False (trim (strip_fences (trim raw)))"
  by (simp add: sanitizeJsonResponse_def sanitize_loop_scan)

lemma trim_id: "s \<noteq> [] \<Longrightarrow> \<not> js_whitespace (hd s) \<Longrightarrow> \<not> js_whitespace (last s) \<Longrightarrow> trim s = s"
proof -
  assume a: "s \<noteq> []" "\<not> js_whitespace (hd s)" "\<not> js_whitespace (last s)"
  then have "dropWhile js_whitespace s = s" by (cases s) simp_all
  moreover from a have "dropWhile js_whitespace (rev s) = rev s"
    by (cases "rev s") (simp_all add: last_rev [symmetric] hd_rev)
  ultimately show ?thesis by (simp add: trim_def)
qed

lemma trim_around:
  assumes "list_all js_whitespace l" and "list_all js_whitespace r"
    and "t \<noteq> []" and "\<not> js_whitespace (hd t)" and "\<not> js_whitespace (last t)"
  shows "trim (l @ t @ r) = t"
proof -
  from assms(1,3,4) have a: "dropWhile js_whitespace (l @ t @ r) = t @ r"
    by (cases t) (simp_all add: dropWhile_append3 list_all_iff dropWhile_append)
  from assms(2,3,5) have "dropWhile js_whitespace (rev r @ rev t) = rev t"
    by (cases "rev t") (simp_all add: list_all_iff dropWhile_append last_rev [symmetric] hd_rev)
  with a show ?thesis by (simp add: trim_def)
qed

lemma startsWith_append: "startsWith (p @ s) p"
  by (simp add: startsWith_def)

lemma endsWith_append: "endsWith (s @ p) p"
  by (simp add: endsWith_def)

lemma strip_fences_fenced: "strip_fences (fenced t) = [LF] @ t @ [LF]"
proof -
  have a: "startsWith (fenced t) ''```json''"
    unfolding fenced_def by (rule startsWith_append)
  have b: "slice_from 7 (fenced t) = ([LF] @ t @ [LF]) @ ''```''"
    by (simp add: slice_from_def fenced_def)
  have c: "endsWith (([LF] @ t @ [LF]) @ ''```'') ''```''" by (rule endsWith_append)
  have d: "slice_drop_last 3 (([LF] @ t @ [LF]) @ ''```'') = [LF] @ t @ [LF]"
    by (simp add: slice_drop_last_def)
  show ?thesis
    unfolding strip_fences_def Let_def using a c by (simp only: b d if_True)
qed

lemma cleaned_fenced:
  assumes "t \<noteq> []" and "\<not> js_whitespace (hd t)" and "\<not> js_whitespace (last t)"
  shows "trim (strip_fences (trim (fenced t))) = t"
proof -
  have "trim (fenced t) = fenced t"
    by (rule trim_id) (simp_all add: fenced_def js_whitespace_def)
  moreover have "trim ([LF] @ t @ [LF]) = t"
    using assms by (intro trim_around) (simp_all add: js_whitespace_def)
  ultimately show ?thesis by (simp only: strip_fences_fenced)
qed

lemma plain_not_special:
  "plain_char c \<Longrightarrow> c \<noteq> DQUOTE \<and> c \<noteq> BACKSLASH \<and> c \<noteq> LF \<and> c \<noteq> CR \<and> c \<noteq> TAB"
  by (auto simp: plain_char_def)

lemma escape_plain: "plain_char c \<Longrightarrow> escape_in_string c = [c]"
  by (auto simp: escape_in_string_def dest: plain_not_special)

lemma escape_control:
  "escape_in_string LF = [BACKSLASH, CHR ''n'']"
  "escape_in_string CR = [BACKSLASH, CHR ''r'']"
  "escape_in_string TAB = [BACKSLASH, CHR ''t'']"
  by (simp_all add: escape_in_string_def)

lemma scan_plain:
  "list_all plain_char k \<Longrightarrow> scan inString False (k @ rest) = k @ scan inString False rest"
proof (induction k)
  case Nil
  show ?case by simp
next
  case (Cons c k)
  then have "plain_char c" by simp
  with Cons show ?case using plain_not_special [of c]
    by (cases inString) (simp_all add: escape_plain)
qed

lemma scan_content:
  "list_all content_char v \<Longrightarrow>
   scan True False (v @ rest) = concat (map escape_in_string v) @ scan True False rest"
proof (induction v)
  case Nil
  show ?case by simp
next
  case (Cons c v)
  then have "content_char c" by simp
  then have "c \<noteq> DQUOTE \<and> c \<noteq> BACKSLASH"
    using plain_not_special [of c] by (auto simp: content_char_def)
  with Cons show ?case by simp
qed

lemma plain_content: "list_all plain_char k \<Longrightarrow> list_all content_char k"
  by (simp add: list_all_iff content_char_def)

lemma escape_plain_all: "list_all plain_char k \<Longrightarrow> concat (map escape_in_string k) = k"
  by (induction k) (simp_all add: escape_plain)

lemma scan_object:
  assumes "list_all plain_char k" and "list_all content_char v"
  shows "scan False False (object_text k v) = object_text k (concat (map escape_in_string v))"
proof -
  have "scan False False (object_text k v)
          = CHR ''{'' # DQUOTE # scan True False (k @ DQUOTE # '': '' @ DQUOTE # v @ DQUOTE # ''}'')"
    by (simp add: object_text_def)
  also have "scan True False (k @ DQUOTE # '': '' @ DQUOTE # v @ DQUOTE # ''}'')
          = k @ scan True False (DQUOTE # '': '' @ DQUOTE # v @ DQUOTE # ''}'')"
    using assms(1) by (rule scan_plain)
  also have "scan True False (DQUOTE # '': '' @ DQUOTE # v @ DQUOTE # ''}'')
          = DQUOTE # '': '' @ DQUOTE # scan True False (v @ DQUOTE # ''}'')"
    by simp
  also have "scan True False (v @ DQUOTE # ''}'')
          = concat (map escape_in_string v) @ scan True False (DQUOTE # ''}'')"
    using assms(2) by (rule scan_content)
  also have "scan True False (DQUOTE # ''}'') = DQUOTE # ''}''" by simp
  finally show ?thesis by (simp add: object_text_def)
qed

lemma object_text_ends:
  "object_text k v \<noteq> []" "hd (object_text k v) = CHR ''{''" "last (object_text k v) = CHR ''}''"
  by (simp_all add: object_text_def)

lemma sanitize_fenced_object:
  assumes "list_all plain_char k" and "list_all content_char v"
  shows "sanitizeJsonResponse (fenced (object_text k v))
           = object_text k (concat (map escape_in_string v))"
proof -
  have "trim (strip_fences (trim (fenced (object_text k v)))) = object_text k v"
    by (rule cleaned_fenced) (simp_all add: object_text_ends js_whitespace_def)
  with assms show ?thesis by (simp add: sanitizeJsonResponse_scan scan_object)
qed

section \<open>Properties of the parser\<close>

lemma lex_string_content:
  "list_all content_char v \<Longrightarrow>
   lex_string (concat (map escape_in_string v) @ DQUOTE # rest) = Some (units v, rest)"
proof (induction v)
  case Nil
  show ?case by (simp add: units_def)
next
  case (Cons c v)
  then have IH: "lex_string (concat (map escape_in_string v) @ DQUOTE # rest) = Some (units v, rest)"
    by simp
  from Cons.prems have "content_char c" by simp
  then consider "plain_char c" | "c = LF" | "c = CR" | "c = TAB"
    by (auto simp: content_char_def)
  then show ?case
  proof cases
    case 1
    then have "c \<noteq> DQUOTE" "c \<noteq> BACKSLASH" "\<not> (of_char c :: nat) < 0x20"
      by (simp_all add: plain_char_def)
    with 1 IH show ?thesis by (simp add: escape_plain units_def)
  next
    case 2
    with IH show ?thesis by (simp add: escape_control unescape_def units_def)
  next
    case 3
    with IH show ?thesis by (simp add: escape_control unescape_def units_def)
  next
    case 4
    with IH show ?thesis by (simp add: escape_control unescape_def units_def)
  qed
qed

lemma lex_string_plain:
  "list_all plain_char k \<Longrightarrow> lex_string (k @ DQUOTE # rest) = Some (units k, rest)"
  using lex_string_content [OF plain_content, of k rest] by (simp add: escape_plain_all)

lemma parse_object:
  assumes "list_all plain_char k" and "list_all content_char v"
  shows "json_parse (object_text k (concat (map escape_in_string v)))
           = Some (JObject [(units k, JString (units v))])"
proof -
  have "lex (object_text k (concat (map escape_in_string v)))
          = Some [TLBrace, TString (units k), TColon, TString (units v), TRBrace]"
    using lex_string_plain [OF assms(1)] lex_string_content [OF assms(2)]
    by (simp add: object_text_def json_whitespace_def)
  then show ?thesis by (simp add: json_parse_def)
qed

lemma fence_not_json: "json_parse (fenced t) = None"
  by (simp add: json_parse_def fenced_def json_whitespace_def is_digit_def)

lemma lex_string_quote: "lex_string (DQUOTE # cs) = Some ([], cs)"
  by simp

lemma lex_string_char:
  "c \<noteq> DQUOTE \<Longrightarrow> c \<noteq> BACKSLASH \<Longrightarrow> \<not> (of_char c :: nat) < 0x20 \<Longrightarrow>
   lex_string (c # cs) = map_option (\<lambda>(v, r). (of_char c # v, r)) (lex_string cs)"
  by simp

lemma lex_string_escape:
  "e \<noteq> CHR ''u'' \<Longrightarrow> unescape e = Some u \<Longrightarrow>
   lex_string (BACKSLASH # e # cs) = map_option (\<lambda>(v, r). (u # v, r)) (lex_string cs)"
  by simp

lemma lex_string_unicode:
  "hex_value h1 = Some d1 \<Longrightarrow> hex_value h2 = Some d2 \<Longrightarrow> hex_value h3 = Some d3 \<Longrightarrow>
   hex_value h4 = Some d4 \<Longrightarrow>
   lex_string (BACKSLASH # CHR ''u'' # h1 # h2 # h3 # h4 # cs) =
     map_option (\<lambda>(v, r). ((((d1 * 16 + d2) * 16 + d3) * 16 + d4) # v, r)) (lex_string cs)"
  by simp

lemma lex_string_cases [consumes 1, case_names Quote Char Escape Unicode]:
  assumes "lex_string s = Some (v, r)"
  obtains "s = DQUOTE # r" "v = []"
  | c cs v' where "s = c # cs" "c \<noteq> DQUOTE" "c \<noteq> BACKSLASH" "\<not> (of_char c :: nat) < 0x20"
      "lex_string cs = Some (v', r)" "v = of_char c # v'"
  | e cs u v' where "s = BACKSLASH # e # cs" "e \<noteq> CHR ''u''" "unescape e = Some u"
      "lex_string cs = Some (v', r)" "v = u # v'"
  | h1 h2 h3 h4 cs d1 d2 d3 d4 v' where "s = BACKSLASH # CHR ''u'' # h1 # h2 # h3 # h4 # cs"
      "hex_value h1 = Some d1" "hex_value h2 = Some d2" "hex_value h3 = Some d3"
      "hex_value h4 = Some d4" "lex_string cs = Some (v', r)"
      "v = (((d1 * 16 + d2) * 16 + d3) * 16 + d4) # v'"
proof (cases s)
  case Nil
  with assms show ?thesis by simp
next
  case (Cons c cs)
  show ?thesis
  proof (cases "c = DQUOTE")
    case True
    with assms Cons that(1) show ?thesis by simp
  next
    case nq: False
    show ?thesis
    proof (cases "c = BACKSLASH")
      case False
      with nq assms Cons that(2) show ?thesis
        by (auto split: if_splits)
    next
      case bs: True
      with assms Cons obtain e cs1 where cs: "cs = e # cs1" by (cases cs) auto
      show ?thesis
      proof (cases "e = CHR ''u''")
        case False
        with bs assms Cons cs that(3) show ?thesis
          by (auto split: option.splits)
      next
        case True
        with bs assms Cons cs obtain h1 h2 h3 h4 cs2 where c2: "cs1 = h1 # h2 # h3 # h4 # cs2"
          by (auto split: list.splits)
        with True bs assms Cons cs that(4) show ?thesis
          by (auto split: option.splits)
      qed
    qed
  qed
qed

lemma body_value_iff: "body_value b = Some v \<longleftrightarrow> lex_string (b @ [DQUOTE]) = Some (v, [])"
  by (auto simp: body_value_def split: option.splits list.splits)

lemma special_not_hex:
  "hex_value DQUOTE = None" "hex_value BACKSLASH = None" "hex_value LF = None"
  "hex_value CR = None" "hex_value TAB = None"
  by (simp_all add: hex_value_def)

lemma special_not_escape: "unescape LF = None" "unescape CR = None" "unescape TAB = None"
  by (simp_all add: unescape_def)

lemma body_cases [consumes 1, case_names Empty Char Escape Unicode]:
  assumes "body_value b = Some v"
  obtains "b = []" "v = []"
  | c b' v' where "b = c # b'" "c \<noteq> DQUOTE" "c \<noteq> BACKSLASH" "\<not> (of_char c :: nat) < 0x20"
      "body_value b' = Some v'" "v = of_char c # v'"
  | e b' u v' where "b = BACKSLASH # e # b'" "e \<noteq> CHR ''u''" "unescape e = Some u"
      "body_value b' = Some v'" "v = u # v'"
  | h1 h2 h3 h4 b' d1 d2 d3 d4 v' where "b = BACKSLASH # CHR ''u'' # h1 # h2 # h3 # h4 # b'"
      "hex_value h1 = Some d1" "hex_value h2 = Some d2" "hex_value h3 = Some d3"
      "hex_value h4 = Some d4" "body_value b' = Some v'"
      "v = (((d1 * 16 + d2) * 16 + d3) * 16 + d4) # v'"
proof -
  from assms have l: "lex_string (b @ [DQUOTE]) = Some (v, [])" by (simp only: body_value_iff)
  then show ?thesis
  proof (cases rule: lex_string_cases)
    case Quote
    then have "b = []" by (cases b) simp_all
    with Quote that(1) show ?thesis by simp
  next
    case (Char c cs v')
    then obtain b' where "b = c # b'" "cs = b' @ [DQUOTE]" by (cases b) simp_all
    with Char that(2) show ?thesis by (simp add: body_value_iff)
  next
    case (Escape e cs u v')
    then obtain b' where "b = BACKSLASH # e # b'" "cs = b' @ [DQUOTE]"
      by (auto simp: append_eq_Cons_conv)
    with Escape that(3) show ?thesis by (simp add: body_value_iff)
  next
    case (Unicode h1 h2 h3 h4 cs d1 d2 d3 d4 v')
    then obtain b' where "b = BACKSLASH # CHR ''u'' # h1 # h2 # h3 # h4 # b'" "cs = b' @ [DQUOTE]"
      by (auto simp: append_eq_Cons_conv special_not_hex)
    with Unicode that(4) show ?thesis by (simp add: body_value_iff)
  qed
qed

lemma map_option_prepend:
  "map_option (\<lambda>(v, r). (x # v, r)) (map_option (\<lambda>(v, r). (xs @ v, r)) m)
     = map_option (\<lambda>(v, r). ((x # xs) @ v, r)) m"
  by (cases m) auto

lemma lex_string_body:
  "body_value a = Some av \<Longrightarrow>
   lex_string (a @ rest) = map_option (\<lambda>(v, r). (av @ v, r)) (lex_string rest)"
proof (induction "length a" arbitrary: a av rule: less_induct)
  case less
  from less.prems show ?case
  proof (cases rule: body_cases)
    case Empty
    then show ?thesis by (cases "lex_string rest") auto
  next
    case (Char c b' v')
    from less.hyps [of b' v'] Char
    have "lex_string (b' @ rest) = map_option (\<lambda>(v, r). (v' @ v, r)) (lex_string rest)" by simp
    with Char show ?thesis by (simp add: lex_string_char map_option_prepend)
  next
    case (Escape e b' u v')
    from less.hyps [of b' v'] Escape
    have "lex_string (b' @ rest) = map_option (\<lambda>(v, r). (v' @ v, r)) (lex_string rest)" by simp
    with Escape show ?thesis by (simp add: lex_string_escape map_option_prepend)
  next
    case (Unicode h1 h2 h3 h4 b' d1 d2 d3 d4 v')
    from less.hyps [of b' v'] Unicode
    have "lex_string (b' @ rest) = map_option (\<lambda>(v, r). (v' @ v, r)) (lex_string rest)" by simp
    with Unicode show ?thesis by (simp add: lex_string_unicode map_option_prepend)
  qed
qed

lemma lex_whitespace: "list_all json_whitespace w \<Longrightarrow> lex (w @ rest) = lex rest"
  by (induction w) simp_all

lemma lex_string_lines:
  assumes "list_all2 (\<lambda>s v. body_value s = Some v) lines vals" and "body_value b = Some bv"
  shows "lex_string (concat (map (\<lambda>s. s @ [BACKSLASH, CHR ''n'']) lines) @ b @ DQUOTE # rest)
           = Some (concat (map (\<lambda>v. v @ [10]) vals) @ bv, rest)"
  using assms(1)
proof (induction rule: list_all2_induct)
  case Nil
  from lex_string_body [OF assms(2), of "DQUOTE # rest"] show ?case by simp
next
  case (Cons s ss v vs)
  let ?X = "concat (map (\<lambda>s. s @ [BACKSLASH, CHR ''n'']) ss) @ b @ DQUOTE # rest"
  have "lex_string (BACKSLASH # CHR ''n'' # ?X) = map_option (\<lambda>(v, r). (10 # v, r)) (lex_string ?X)"
    by (rule lex_string_escape) (simp_all add: unescape_def)
  with lex_string_body [OF Cons(1), of "BACKSLASH # CHR ''n'' # ?X"] Cons.IH show ?case by simp
qed

lemma lex_string_key:
  "body_value k = Some kv \<Longrightarrow> lex_string (k @ DQUOTE # rest) = Some (kv, rest)"
  using lex_string_body [of k kv "DQUOTE # rest"] by simp

lemma parse_spaced_object:
  assumes "list_all json_whitespace w1" and "list_all json_whitespace w2"
    and "list_all json_whitespace w3" and "list_all json_whitespace w4"
    and "body_value k = Some kv"
    and "list_all2 (\<lambda>s v. body_value s = Some v) lines vals"
    and "body_value b = Some bv"
  shows "json_parse (spaced_object w1 w2 w3 w4 k (concat (map (\<lambda>s. s @ [BACKSLASH, CHR ''n'']) lines) @ b))
           = Some (JObject [(kv, JString (concat (map (\<lambda>v. v @ [10]) vals) @ bv))])"
proof -
  let ?e = "concat (map (\<lambda>s. s @ [BACKSLASH, CHR ''n'']) lines) @ b"
  have 5: "lex (w4 @ ''}'') = Some [TRBrace]"
    by (simp add: lex_whitespace [OF assms(4)] json_whitespace_def)
  have 4: "lex (DQUOTE # ?e @ DQUOTE # w4 @ ''}'')
             = Some [TString (concat (map (\<lambda>v. v @ [10]) vals) @ bv), TRBrace]"
    using lex_string_lines [OF assms(6,7), of "w4 @ ''}''"] 5 by (simp add: json_whitespace_def)
  have 3: "lex (w3 @ DQUOTE # ?e @ DQUOTE # w4 @ ''}'')
             = Some [TString (concat (map (\<lambda>v. v @ [10]) vals) @ bv), TRBrace]"
    by (simp only: lex_whitespace [OF assms(3)] 4)
  have 2: "lex (w2 @ CHR '':'' # w3 @ DQUOTE # ?e @ DQUOTE # w4 @ ''}'')
             = Some [TColon, TString (concat (map (\<lambda>v. v @ [10]) vals) @ bv), TRBrace]"
    using 3 by (simp add: lex_whitespace [OF assms(2)] json_whitespace_def)
  have 1: "lex (DQUOTE # k @ DQUOTE # w2 @ CHR '':'' # w3 @ DQUOTE # ?e @ DQUOTE # w4 @ ''}'')
             = Some [TString kv, TColon, TString (concat (map (\<lambda>v. v @ [10]) vals) @ bv), TRBrace]"
    using lex_string_key [OF assms(5), of "w2 @ CHR '':'' # w3 @ DQUOTE # ?e @ DQUOTE # w4 @ ''}''"] 2
    by (simp add: json_whitespace_def)
  have 0: "lex (w1 @ DQUOTE # k @ DQUOTE # w2 @ CHR '':'' # w3 @ DQUOTE # ?e @ DQUOTE # w4 @ ''}'')
             = Some [TString kv, TColon, TString (concat (map (\<lambda>v. v @ [10]) vals) @ bv), TRBrace]"
    by (simp only: lex_whitespace [OF assms(1)] 1)
  then have "lex (spaced_object w1 w2 w3 w4 k ?e)
             = Some [TLBrace, TString kv, TColon, TString (concat (map (\<lambda>v. v @ [10]) vals) @ bv), TRBrace]"
    by (simp add: spaced_object_def json_whitespace_def)
  then show ?thesis by (simp add: json_parse_def)
qed

section \<open>The repair of string literals\<close>

lemma escape_other:
  "c \<noteq> LF \<Longrightarrow> c \<noteq> CR \<Longrightarrow> c \<noteq> TAB \<Longrightarrow> escape_in_string c = [c]"
  by (simp add: escape_in_string_def)

lemma not_control: "\<not> (of_char c :: nat) < 0x20 \<Longrightarrow> c \<noteq> LF \<and> c \<noteq> CR \<and> c \<noteq> TAB"
  by auto

lemma escaped_not_control: "unescape e = Some u \<Longrightarrow> e \<noteq> LF \<and> e \<noteq> CR \<and> e \<noteq> TAB"
  by (auto simp: special_not_escape)

lemma hex_not_special:
  "hex_value h = Some d \<Longrightarrow> h \<noteq> DQUOTE \<and> h \<noteq> BACKSLASH \<and> h \<noteq> LF \<and> h \<noteq> CR \<and> h \<noteq> TAB"
  by (auto simp: special_not_hex)

lemma scan_body:
  "body_value a = Some av \<Longrightarrow>
   scan True pb (a @ rest) = a @ scan True (if a = [] then pb else last a = BACKSLASH) rest"
proof (induction "length a" arbitrary: a av pb rule: less_induct)
  case less
  from less.prems show ?case
  proof (cases rule: body_cases)
    case Empty
    then show ?thesis by simp
  next
    case (Char c b' v')
    from less.hyps [of b' v' False] Char
    have "scan True False (b' @ rest)
            = b' @ scan True (if b' = [] then False else last b' = BACKSLASH) rest" by simp
    with Char not_control [of c] show ?thesis by (simp add: escape_other)
  next
    case (Escape e b' u v')
    from less.hyps [of b' v' "e = BACKSLASH"] Escape
    have IH: "scan True (e = BACKSLASH) (b' @ rest)
            = b' @ scan True (if b' = [] then e = BACKSLASH else last b' = BACKSLASH) rest" by simp
    have "scan True True (e # b' @ rest) = e # scan True (e = BACKSLASH) (b' @ rest)"
    proof (cases "e = DQUOTE")
      case True
      then show ?thesis by (simp add: escape_in_string_def)
    next
      case False
      with escaped_not_control [OF Escape(3)] show ?thesis by (simp add: escape_other)
    qed
    with IH Escape show ?thesis by (simp add: escape_other)
  next
    case (Unicode h1 h2 h3 h4 b' d1 d2 d3 d4 v')
    from less.hyps [of b' v' False] Unicode
    have IH: "scan True False (b' @ rest)
            = b' @ scan True (if b' = [] then False else last b' = BACKSLASH) rest" by simp
    from Unicode(2-5) have "h1 \<noteq> DQUOTE \<and> h1 \<noteq> BACKSLASH \<and> h1 \<noteq> LF \<and> h1 \<noteq> CR \<and> h1 \<noteq> TAB"
      "h2 \<noteq> DQUOTE \<and> h2 \<noteq> BACKSLASH \<and> h2 \<noteq> LF \<and> h2 \<noteq> CR \<and> h2 \<noteq> TAB"
      "h3 \<noteq> DQUOTE \<and> h3 \<noteq> BACKSLASH \<and> h3 \<noteq> LF \<and> h3 \<noteq> CR \<and> h3 \<noteq> TAB"
      "h4 \<noteq> DQUOTE \<and> h4 \<noteq> BACKSLASH \<and> h4 \<noteq> LF \<and> h4 \<noteq> CR \<and> h4 \<noteq> TAB"
      by (simp_all add: hex_not_special)
    with IH Unicode(1) show ?thesis by (simp add: escape_other)
  qed
qed

lemma scan_outside:
  "\<forall>c \<in> set w. c \<noteq> DQUOTE \<and> c \<noteq> BACKSLASH \<Longrightarrow>
   scan False False (w @ rest) = w @ scan False False rest"
  by (induction w) simp_all

lemma whitespace_not_special: "json_whitespace c \<Longrightarrow> c \<noteq> DQUOTE \<and> c \<noteq> BACKSLASH"
  by (auto simp: json_whitespace_def)

lemma scan_whitespace:
  "list_all json_whitespace w \<Longrightarrow> scan False False (w @ rest) = w @ scan False False rest"
  by (rule scan_outside) (simp add: list_all_iff whitespace_not_special)

lemma endsWith_single: "endsWith b [c] \<longleftrightarrow> b \<noteq> [] \<and> last b = c"
proof (cases b rule: rev_cases)
  case Nil
  then show ?thesis by (simp add: endsWith_def)
next
  case (snoc ys y)
  then show ?thesis by (simp add: endsWith_def)
qed

lemma scan_closing:
  assumes "body_value b = Some bv" and "\<not> endsWith b [BACKSLASH]"
  shows "scan True False (b @ DQUOTE # rest) = b @ DQUOTE # scan False False rest"
proof -
  from assms(2) have "(if b = [] then False else last b = BACKSLASH) = False"
    by (auto simp: endsWith_single)
  with scan_body [OF assms(1), of False "DQUOTE # rest"] show ?thesis by simp
qed

lemma scan_lines:
  assumes "list_all2 (\<lambda>s v. body_value s = Some v) lines vals"
    and "body_value b = Some bv" and "\<not> endsWith b [BACKSLASH]"
  shows "scan True False (concat (map (\<lambda>s. s @ [LF]) lines) @ b @ DQUOTE # rest)
           = concat (map (\<lambda>s. s @ [BACKSLASH, CHR ''n'']) lines) @ b @ DQUOTE # scan False False rest"
  using assms(1)
proof (induction rule: list_all2_induct)
  case Nil
  from scan_closing [OF assms(2,3)] show ?case by simp
next
  case (Cons s ss v vs)
  let ?X = "concat (map (\<lambda>s. s @ [LF]) ss) @ b @ DQUOTE # rest"
  from scan_body [OF Cons(1), of False "LF # ?X"]
  have "scan True False (s @ LF # ?X) = s @ BACKSLASH # CHR ''n'' # scan True False ?X"
    by (simp add: escape_in_string_def)
  with Cons.IH show ?case by simp
qed


lemma scan_spaced_object:
  assumes "list_all json_whitespace w1" and "list_all json_whitespace w2"
    and "list_all json_whitespace w3" and "list_all json_whitespace w4"
    and "body_value k = Some kv" and "\<not> endsWith k [BACKSLASH]"
    and "list_all2 (\<lambda>s v. body_value s = Some v) lines vals"
    and "body_value b = Some bv" and "\<not> endsWith b [BACKSLASH]"
  shows "scan False False (spaced_object w1 w2 w3 w4 k (concat (map (\<lambda>s. s @ [LF]) lines) @ b))
           = spaced_object w1 w2 w3 w4 k (concat (map (\<lambda>s. s @ [BACKSLASH, CHR ''n'']) lines) @ b)"
proof -
  let ?v = "concat (map (\<lambda>s. s @ [LF]) lines) @ b"
  let ?e = "concat (map (\<lambda>s. s @ [BACKSLASH, CHR ''n'']) lines) @ b"
  have 5: "scan False False (w4 @ ''}'') = w4 @ ''}''"
    using scan_whitespace [OF assms(4), of "''}''"] by simp
  have 4: "scan True False (?v @ DQUOTE # w4 @ ''}'') = ?e @ DQUOTE # w4 @ ''}''"
    using scan_lines [OF assms(7,8,9), of "w4 @ ''}''"] 5 by simp
  have 3: "scan False False (w3 @ DQUOTE # ?v @ DQUOTE # w4 @ ''}'') = w3 @ DQUOTE # ?e @ DQUOTE # w4 @ ''}''"
    using scan_whitespace [OF assms(3), of "DQUOTE # ?v @ DQUOTE # w4 @ ''}''"] 4 by simp
  have 2: "scan False False (w2 @ CHR '':'' # w3 @ DQUOTE # ?v @ DQUOTE # w4 @ ''}'')
             = w2 @ CHR '':'' # w3 @ DQUOTE # ?e @ DQUOTE # w4 @ ''}''"
    using scan_whitespace [OF assms(2), of "CHR '':'' # w3 @ DQUOTE # ?v @ DQUOTE # w4 @ ''}''"] 3
    by simp
  have 1: "scan True False (k @ DQUOTE # w2 @ CHR '':'' # w3 @ DQUOTE # ?v @ DQUOTE # w4 @ ''}'')
             = k @ DQUOTE # w2 @ CHR '':'' # w3 @ DQUOTE # ?e @ DQUOTE # w4 @ ''}''"
    using scan_closing [OF assms(5,6), of "w2 @ CHR '':'' # w3 @ DQUOTE # ?v @ DQUOTE # w4 @ ''}''"] 2
    by simp
  have 0: "scan False False (w1 @ DQUOTE # k @ DQUOTE # w2 @ CHR '':'' # w3 @ DQUOTE # ?v @ DQUOTE # w4 @ ''}'')
             = w1 @ DQUOTE # k @ DQUOTE # w2 @ CHR '':'' # w3 @ DQUOTE # ?e @ DQUOTE # w4 @ ''}''"
    using scan_whitespace [OF assms(1),
            of "DQUOTE # k @ DQUOTE # w2 @ CHR '':'' # w3 @ DQUOTE # ?v @ DQUOTE # w4 @ ''}''"] 1
    by simp
  then show ?thesis by (simp add: spaced_object_def)
qed


section \<open>Properties of the gateway\<close>



section \<open>Properties of the backfill driver\<close>

lemma snd_generateJson: "snd (generateJson parse c r) = snd (generateJson parse c' r)"
  by (simp add: generateJson_def Let_def split: sum.splits option.splits)

lemma snd_analyzeImage: "snd (analyzeImage parse c r) = snd (analyzeImage parse c' r)"
  by (simp add: analyzeImage_def Let_def split: sum.splits option.splits)

lemma snd_generateExplanation:
  "snd (generateExplanation parse c r) = snd (generateExplanation parse c' r)"
proof -
  obtain c1 x where a: "generateJson parse c r = (c1, x)" by (cases "generateJson parse c r")
  obtain c2 y where b: "generateJson parse c' r = (c2, y)" by (cases "generateJson parse c' r")
  from snd_generateJson [of parse c r c'] a b have "x = y" by simp
  with a b show ?thesis by (simp add: generateExplanation_def split: sum.splits)
qed

lemma generateExplanation_outcome:
  "generateExplanation parse c (model_reply W idx) = (c1, x) \<Longrightarrow> x = explanation_outcome W parse idx"
  using snd_generateExplanation [of parse c "model_reply W idx" new_client]
  by (simp add: explanation_outcome_def)

lemma pending_loop_filter:
  "i \<le> length (questions d) \<Longrightarrow>
   pending_loop d skipExisting i acc =
     acc @ filter (\<lambda>i. \<not> (skipExisting \<and> truthy (explanation (questions d ! i)))
                        \<and> correctChoice (questions d ! i) \<noteq> None) [i..<length (questions d)]"
proof (induction d skipExisting i acc rule: pending_loop.induct)
  case (1 d skipExisting i acc)
  show ?case
  proof (cases "i < length (questions d)")
    case True
    then have up: "[i..<length (questions d)] = i # [i + 1..<length (questions d)]"
      by (simp add: upt_conv_Cons)
    from True 1 show ?thesis
      by (subst pending_loop.simps) (simp add: up Let_def)
  next
    case False
    with 1 show ?thesis by (subst pending_loop.simps) simp
  qed
qed

lemma process_question_fail:
  assumes "explanation_outcome W parse idx = Inl e"
  shows "st_data (process_question W parse b idx st) = st_data st"
    and "st_processed (process_question W parse b idx st) = st_processed st"
    and "st_calls (process_question W parse b idx st) = st_calls st @ [idx]"
    and "st_writes (process_question W parse b idx st) = st_writes st"
    and "st_errors (process_question W parse b idx st) = st_errors st + 1"
    and "st_errorLog (process_question W parse b idx st) = st_errorLog st @ [(idx, message e)]"
proof -
  obtain c1 x where g: "generateExplanation parse (st_client st) (model_reply W idx) = (c1, x)"
    by (cases "generateExplanation parse (st_client st) (model_reply W idx)")
  with assms generateExplanation_outcome [OF g] have x: "x = Inl e" by simp
  show "st_data (process_question W parse b idx st) = st_data st"
    and "st_processed (process_question W parse b idx st) = st_processed st"
    and "st_calls (process_question W parse b idx st) = st_calls st @ [idx]"
    and "st_writes (process_question W parse b idx st) = st_writes st"
    and "st_errors (process_question W parse b idx st) = st_errors st + 1"
    and "st_errorLog (process_question W parse b idx st) = st_errorLog st @ [(idx, message e)]"
    using g x by (simp_all add: process_question_def on_error_def)
qed

lemma process_question_ok:
  assumes "explanation_outcome W parse idx = Inr r"
  shows "st_data (process_question W parse b idx st) = set_explanation (st_data st) idx (result_explanation r)"
    and "st_processed (process_question W parse b idx st) = st_processed st + 1"
    and "st_calls (process_question W parse b idx st) = st_calls st @ [idx]"
    and "st_writes (process_question W parse b idx st) =
           st_writes st @ (if checkpoint_due (st_processed st + 1) b
                           then [set_explanation (st_data st) idx (result_explanation r)] else [])"
proof -
  obtain c1 x where g: "generateExplanation parse (st_client st) (model_reply W idx) = (c1, x)"
    by (cases "generateExplanation parse (st_client st) (model_reply W idx)")
  with assms generateExplanation_outcome [OF g] have x: "x = Inr r" by simp
  show "st_data (process_question W parse b idx st) = set_explanation (st_data st) idx (result_explanation r)"
    and "st_processed (process_question W parse b idx st) = st_processed st + 1"
    and "st_calls (process_question W parse b idx st) = st_calls st @ [idx]"
    and "st_writes (process_question W parse b idx st) =
           st_writes st @ (if checkpoint_due (st_processed st + 1) b
                           then [set_explanation (st_data st) idx (result_explanation r)] else [])"
    using g x
    by (simp_all add: process_question_def on_error_def saveCheckpoint_def Let_def split: option.splits)
qed


lemma loop_calls: "st_calls (backfill_loop W parse b xs st) = st_calls st @ xs"
proof (induction xs arbitrary: st)
  case Nil
  show ?case by simp
next
  case (Cons idx rest)
  have "st_calls (process_question W parse b idx st) = st_calls st @ [idx]"
    by (cases "explanation_outcome W parse idx")
       (simp_all add: process_question_fail process_question_ok)
  with Cons show ?case by simp
qed

lemma loop_data:
  "st_data (backfill_loop W parse b xs st) = apply_explanations (st_data st) (successes W parse xs)"
proof (induction xs arbitrary: st)
  case Nil
  show ?case by simp
next
  case (Cons idx rest)
  show ?case
    by (cases "explanation_outcome W parse idx")
       (simp_all add: Cons process_question_fail process_question_ok)
qed

lemma loop_processed:
  "st_processed (backfill_loop W parse b xs st) = st_processed st + length (successes W parse xs)"
proof (induction xs arbitrary: st)
  case Nil
  show ?case by simp
next
  case (Cons idx rest)
  show ?case
    by (cases "explanation_outcome W parse idx")
       (simp_all add: Cons process_question_fail process_question_ok)
qed


lemma upt_1_Suc: "[Suc 0..<Suc (Suc m)] = Suc 0 # map Suc [Suc 0..<Suc m]"
proof -
  have "[Suc 0..<Suc (Suc m)] = Suc 0 # [Suc (Suc 0)..<Suc (Suc m)]"
    by (rule upt_conv_Cons) simp
  also have "[Suc (Suc 0)..<Suc (Suc m)] = map Suc [Suc 0..<Suc m]"
    by (simp only: map_Suc_upt)
  finally show ?thesis .
qed

lemma loop_writes:
  "st_writes (backfill_loop W parse b xs st) =
     st_writes st @
     map (\<lambda>j. apply_explanations (st_data st) (take j (successes W parse xs)))
         (filter (\<lambda>j. checkpoint_due (st_processed st + j) b)
                 [1..<Suc (length (successes W parse xs))])"
proof (induction xs arbitrary: st)
  case Nil
  show ?case by simp
next
  case (Cons idx rest)
  show ?case
  proof (cases "explanation_outcome W parse idx")
    case (Inl e)
    then show ?thesis by (simp add: Cons process_question_fail)
  next
    case (Inr r)
    let ?st1 = "process_question W parse b idx st"
    let ?m = "length (successes W parse rest)"
    have s: "successes W parse (idx # rest) = (idx, result_explanation r) # successes W parse rest"
      using Inr by simp
    have "st_writes (backfill_loop W parse b (idx # rest) st) =
            st_writes ?st1 @
            map (\<lambda>j. apply_explanations (st_data ?st1) (take j (successes W parse rest)))
                (filter (\<lambda>j. checkpoint_due (st_processed ?st1 + j) b) [1..<Suc ?m])"
      by (simp add: Cons)
    moreover have "[1..<Suc (length (successes W parse (idx # rest)))] = 1 # map Suc [1..<Suc ?m]"
      unfolding s by (simp add: upt_1_Suc del: upt_Suc)
    ultimately show ?thesis
      unfolding s
      by (simp add: process_question_ok [OF Inr] filter_map o_def del: upt_Suc successes.simps)
  qed
qed

lemma questionsToProcess_filter:
  "questionsToProcess d skipExisting =
     filter (\<lambda>i. \<not> (skipExisting \<and> truthy (explanation (questions d ! i)))
                  \<and> correctChoice (questions d ! i) \<noteq> None) [0..<length (questions d)]"
  by (simp add: questionsToProcess_def pending_loop_filter)


lemma main_calls: "st_calls (fst (main W parse d b skipExisting)) = questionsToProcess d skipExisting"
  by (simp add: main_def Let_def saveCheckpoint_def loop_calls initial_state_def split: option.splits)

lemma main_writes:
  "st_writes (fst (main W parse d b skipExisting)) =
     (if questionsToProcess d skipExisting = [] then []
      else map (\<lambda>j. apply_explanations d (take j (successes W parse (questionsToProcess d skipExisting))))
               (filter (\<lambda>j. checkpoint_due j b)
                  [1..<Suc (length (successes W parse (questionsToProcess d skipExisting)))])
           @ [apply_explanations d (successes W parse (questionsToProcess d skipExisting))])"
  by (simp add: main_def Let_def saveCheckpoint_def loop_writes loop_data initial_state_def
           split: option.splits del: upt_Suc)

lemma main_data:
  "st_data (fst (main W parse d b skipExisting)) =
     apply_explanations d (successes W parse (questionsToProcess d skipExisting))"
  by (simp add: main_def Let_def saveCheckpoint_def loop_data initial_state_def split: option.splits)

lemma main_last_write:
  "questionsToProcess d skipExisting \<noteq> [] \<Longrightarrow>
   last (st_writes (fst (main W parse d b skipExisting))) = st_data (fst (main W parse d b skipExisting))"
  by (simp add: main_writes main_data del: upt_Suc)

lemma main_outcome:
  "snd (main W parse d b skipExisting) =
     (if questionsToProcess d skipExisting = [] then NothingToDo
      else case write_outcome W (length (st_writes (backfill_loop W parse b
                   (questionsToProcess d skipExisting) (initial_state d)))) of
             None \<Rightarrow> Completed | Some err \<Rightarrow> Failed err)"
  by (simp add: main_def Let_def saveCheckpoint_def split: option.splits)



lemma set_explanation_frame:
  "name (set_explanation d idx e) = name d"
  "source (set_explanation d idx e) = source d"
  "stats (set_explanation d idx e) = stats d"
  "data_startPage (set_explanation d idx e) = data_startPage d"
  "data_endPage (set_explanation d idx e) = data_endPage d"
  "length (questions (set_explanation d idx e)) = length (questions d)"
  by (simp_all add: set_explanation_def)

lemma set_explanation_question:
  "i < length (questions d) \<Longrightarrow>
   questions (set_explanation d idx e) ! i =
     (if i = idx then (questions d ! i)\<lparr>explanation := Text e\<rparr> else questions d ! i)"
  by (simp add: set_explanation_def nth_list_update)

lemma apply_explanations_frame:
  "name (apply_explanations d S) = name d
   \<and> source (apply_explanations d S) = source d
   \<and> stats (apply_explanations d S) = stats d
   \<and> data_startPage (apply_explanations d S) = data_startPage d
   \<and> data_endPage (apply_explanations d S) = data_endPage d
   \<and> length (questions (apply_explanations d S)) = length (questions d)"
  by (induction d S rule: apply_explanations.induct) (simp_all add: set_explanation_frame)

lemma apply_explanations_fields:
  "i < length (questions d) \<Longrightarrow>
   questionText (questions (apply_explanations d S) ! i) = questionText (questions d ! i)
   \<and> choices (questions (apply_explanations d S) ! i) = choices (questions d ! i)
   \<and> correctChoice (questions (apply_explanations d S) ! i) = correctChoice (questions d ! i)
   \<and> orderIndex (questions (apply_explanations d S) ! i) = orderIndex (questions d ! i)"
  by (induction d S rule: apply_explanations.induct)
     (simp_all add: set_explanation_frame set_explanation_question)

lemma apply_explanations_untouched:
  "i < length (questions d) \<Longrightarrow> i \<notin> fst ` set S \<Longrightarrow>
   explanation (questions (apply_explanations d S) ! i) = explanation (questions d ! i)"
  by (induction d S rule: apply_explanations.induct)
     (auto simp: set_explanation_frame set_explanation_question)

lemma apply_explanations_written:
  "i < length (questions d) \<Longrightarrow> (i, e) \<in> set S \<Longrightarrow> \<forall>e'. (i, e') \<in> set S \<longrightarrow> e' = e \<Longrightarrow>
   explanation (questions (apply_explanations d S) ! i) = Text e"
proof (induction d S rule: apply_explanations.induct)
  case (1 d)
  then show ?case by simp
next
  case (2 d idx x rest)
  have len: "i < length (questions (set_explanation d idx x))"
    using "2.prems"(1) by (simp add: set_explanation_frame)
  have same: "\<forall>e'. (i, e') \<in> set rest \<longrightarrow> e' = e"
    using "2.prems"(3) by simp
  show ?case
  proof (cases "(i, e) \<in> set rest")
    case True
    from "2.IH" [OF len True same] show ?thesis by simp
  next
    case False
    with "2.prems"(2) have ix: "idx = i" and xe: "x = e" by simp_all
    have "i \<notin> fst ` set rest"
    proof
      assume "i \<in> fst ` set rest"
      then obtain e' where "(i, e') \<in> set rest" by fastforce
      with same False show False by blast
    qed
    from apply_explanations_untouched [OF len this]
    have "explanation (questions (apply_explanations (set_explanation d idx x) rest) ! i)
            = explanation (questions (set_explanation d idx x) ! i)" .
    also have "\<dots> = Text e"
      using "2.prems"(1) by (simp add: ix xe set_explanation_question)
    finally show ?thesis by simp
  qed
qed

lemma successes_iff:
  "(i, e) \<in> set (successes W parse xs) \<longleftrightarrow>
     i \<in> set xs \<and> (\<exists>r. explanation_outcome W parse i = Inr r \<and> e = result_explanation r)"
  by (induction xs) (auto split: sum.splits)

lemma failures_iff:
  "(i, m) \<in> set (failures W parse xs) \<longleftrightarrow>
     i \<in> set xs \<and> (\<exists>e. explanation_outcome W parse i = Inl e \<and> m = message e)"
  by (induction xs) (auto split: sum.splits)

lemma successes_all:
  "\<forall>i \<in> set xs. \<exists>r. explanation_outcome W parse i = Inr r \<Longrightarrow>
   length (successes W parse xs) = length xs \<and> failures W parse xs = []"
  by (induction xs) (auto split: sum.splits)



lemma checkpoint_due_iff:
  "checkpoint_due n batchSize \<longleftrightarrow> (\<exists>b. batchSize = Some b \<and> b \<noteq> 0 \<and> b dvd int n)"
proof (cases batchSize)
  case None
  then show ?thesis by (simp add: checkpoint_due_def js_rem_def)
next
  case (Some b)
  have "\<bar>int n\<bar> mod \<bar>b\<bar> = 0 \<longleftrightarrow> b dvd int n"
    by (simp add: dvd_eq_mod_eq_0 [symmetric])
  moreover have "sgn (int n) * (int n mod \<bar>b\<bar>) = 0 \<longleftrightarrow> int n mod \<bar>b\<bar> = 0"
    by (cases "n = 0") simp_all
  ultimately show ?thesis using Some by (simp add: checkpoint_due_def js_rem_def)
qed

lemma due_10: "filter (\<lambda>j. checkpoint_due j (Some 10)) [1..<Suc 23] = [10, 20]"
  by (simp add: checkpoint_due_def js_rem_def upt_rec)

section \<open>Properties of the extraction driver\<close>

lemma snd_extractQuestionsFromPage:
  "snd (extractQuestionsFromPage parse c img r) = snd (extractQuestionsFromPage parse c' img r)"
proof -
  obtain c1 x where a: "analyzeImage parse c r = (c1, x)" by (cases "analyzeImage parse c r")
  obtain c2 y where b: "analyzeImage parse c' r = (c2, y)" by (cases "analyzeImage parse c' r")
  from snd_analyzeImage [of parse c r c'] a b have "x = y" by simp
  with a b show ?thesis by (simp add: extractQuestionsFromPage_def split: sum.splits)
qed

lemma extract_loop_step:
  "extract_loop W parse onProgress startPage endPage p st =
     (if p \<le> endPage then
        (case page_step W parse p of
           Aborted e \<Rightarrow>
             (case convertPdfPagesToImages (document W p) [p] of
                Inl e' \<Rightarrow> (st, Some e)
              | Inr pageImages \<Rightarrow>
                  (st\<lparr>ex_client := fst (extractQuestionsFromPage parse (ex_client st)
                                            (pageImages ! 0) (page_reply W p))\<rparr>, Some e))
         | NoImage \<Rightarrow>
             extract_loop W parse onProgress startPage endPage (p + 1)
               (st\<lparr>ex_warnings := ex_warnings st @ [p]\<rparr>)
         | Extracted result \<Rightarrow>
             extract_loop W parse onProgress startPage endPage (p + 1)
               (st\<lparr>ex_client := fst (extractQuestionsFromPage parse (ex_client st)
                          (projr (convertPdfPagesToImages (document W p) [p]) ! 0) (page_reply W p)),
                   allQuestions := allQuestions st @ page_questions result,
                   ex_totalUsage := add_usage (ex_totalUsage st) (page_usage result),
                   ex_progress := (if onProgress
                                   then ex_progress st @ progress_of startPage endPage p (Extracted result)
                                   else ex_progress st)\<rparr>))
      else (st, None))"
proof (cases "p \<le> endPage")
  case False
  then show ?thesis by (subst extract_loop.simps) simp
next
  case True
  show ?thesis
  proof (cases "convertPdfPagesToImages (document W p) [p]")
    case (Inl e)
    with True show ?thesis
      by (subst extract_loop.simps) (simp add: page_step_def)
  next
    case (Inr pageImages)
    show ?thesis
    proof (cases "length pageImages = 0")
      case True
      with \<open>p \<le> endPage\<close> Inr show ?thesis
        by (subst extract_loop.simps) (simp add: page_step_def)
    next
      case False
      obtain c1 x where g: "extractQuestionsFromPage parse (ex_client st) (pageImages ! 0) (page_reply W p) = (c1, x)"
        by (cases "extractQuestionsFromPage parse (ex_client st) (pageImages ! 0) (page_reply W p)")
      have x: "snd (extractQuestionsFromPage parse new_client (pageImages ! 0) (page_reply W p)) = x"
        using snd_extractQuestionsFromPage [of parse new_client "pageImages ! 0" "page_reply W p" "ex_client st"] g
        by simp
      from False \<open>p \<le> endPage\<close> Inr g x show ?thesis
        by (subst extract_loop.simps) (cases x; simp add: page_step_def)
    qed
  qed
qed

lemma extract_loop_char:
  "allQuestions (fst (extract_loop W parse onProgress startPage endPage p st)) =
     allQuestions st @ concat (map (\<lambda>q. questions_of (page_step W parse q)) (pages_reached W parse p endPage))
   \<and> ex_progress (fst (extract_loop W parse onProgress startPage endPage p st)) =
     ex_progress st @ (if onProgress
                       then concat (map (\<lambda>q. progress_of startPage endPage q (page_step W parse q))
                                        (pages_reached W parse p endPage))
                       else [])
   \<and> snd (extract_loop W parse onProgress startPage endPage p st) = first_abort W parse p endPage"
proof (induction "nat (endPage + 1 - p)" arbitrary: p st)
  case 0
  then have "\<not> p \<le> endPage" by simp
  then show ?case
    by (subst (1 2 3) extract_loop_step) (simp add: pages_reached_def first_abort_def)
next
  case (Suc n)
  then have le: "p \<le> endPage" and n: "n = nat (endPage + 1 - (p + 1))" by simp_all
  have up: "[p..endPage] = p # [p + 1..endPage]" using le by (simp add: upto_rec1)
  note IH = Suc.hyps(1) [OF n]
  show ?case
  proof (cases "page_step W parse p")
    case NoImage
    with le show ?thesis
      by (subst (1 2 3) extract_loop_step)
         (simp add: IH pages_reached_def first_abort_def up)
  next
    case (Extracted result)
    with le show ?thesis
      by (subst (1 2 3) extract_loop_step)
         (simp add: IH pages_reached_def first_abort_def up)
  next
    case (Aborted e)
    with le show ?thesis
      by (subst (1 2 3) extract_loop_step)
         (simp add: pages_reached_def first_abort_def up split: sum.splits)
  qed
qed

lemma first_abort_None_iff:
  "first_abort W parse p endPage = None \<longleftrightarrow>
     (\<forall>q \<in> set [p..endPage]. abort_of (page_step W parse q) = None)"
proof (cases "dropWhile (\<lambda>q. abort_of (page_step W parse q) = None) [p..endPage]")
  case Nil
  then have "\<forall>q \<in> set [p..endPage]. abort_of (page_step W parse q) = None"
    by (simp only: dropWhile_eq_Nil_conv)
  moreover from Nil have "first_abort W parse p endPage = None"
    by (simp only: first_abort_def list.case)
  ultimately show ?thesis by blast
next
  case (Cons q qs)
  let ?P = "\<lambda>q. abort_of (page_step W parse q) = None"
  from Cons have ne: "dropWhile ?P [p..endPage] \<noteq> []" by simp
  from hd_dropWhile [OF ne] Cons have bad: "abort_of (page_step W parse q) \<noteq> None" by simp
  have "q \<in> set (dropWhile ?P [p..endPage])" unfolding Cons by simp
  then have "q \<in> set [p..endPage]" by (rule set_dropWhileD)
  with bad have neg: "\<not> (\<forall>q \<in> set [p..endPage]. abort_of (page_step W parse q) = None)"
    by (intro notI) (drule bspec, assumption, simp)
  have fa: "first_abort W parse p endPage = abort_of (page_step W parse q)"
    unfolding first_abort_def Cons by simp
  show ?thesis
  proof
    assume "first_abort W parse p endPage = None"
    with fa bad show "\<forall>q \<in> set [p..endPage]. abort_of (page_step W parse q) = None" by simp
  next
    assume "\<forall>q \<in> set [p..endPage]. abort_of (page_step W parse q) = None"
    with neg show "first_abort W parse p endPage = None" by (rule notE)
  qed
qed

lemma pages_reached_all:
  "first_abort W parse p endPage = None \<Longrightarrow> pages_reached W parse p endPage = [p..endPage]"
  by (simp add: first_abort_None_iff pages_reached_def takeWhile_eq_all_conv)

lemma pages_reached_subset: "set (pages_reached W parse p endPage) \<subseteq> {p..endPage}"
  using set_takeWhileD [of _ "\<lambda>q. abort_of (page_step W parse q) = None" "[p..endPage]"]
  by (auto simp: pages_reached_def)





lemma extract_result:
  "snd (extractQuestionsFromPages W parse onProgress startPage endPage) =
     (case first_abort W parse startPage endPage of
        Some e \<Rightarrow> Inl e
      | None \<Rightarrow>
          Inr \<lparr>result_questions =
                 renumber (concat (map (\<lambda>q. questions_of (page_step W parse q)) [startPage..endPage])),
               totalUsage = ex_totalUsage (fst (extract_loop W parse onProgress startPage endPage
                                                  startPage initial_extraction)),
               pagesProcessed = endPage - startPage + 1\<rparr>)"
proof -
  obtain st r where l: "extract_loop W parse onProgress startPage endPage startPage initial_extraction = (st, r)"
    by (cases "extract_loop W parse onProgress startPage endPage startPage initial_extraction")
  from extract_loop_char [of W parse onProgress startPage endPage startPage initial_extraction] l
  have r: "r = first_abort W parse startPage endPage"
    and q: "allQuestions st = concat (map (\<lambda>q. questions_of (page_step W parse q))
                                         (pages_reached W parse startPage endPage))"
    by (simp_all add: initial_extraction_def)
  show ?thesis
  proof (cases r)
    case None
    with r have "pages_reached W parse startPage endPage = [startPage..endPage]"
      by (simp add: pages_reached_all)
    with None l r q show ?thesis by (simp add: extractQuestionsFromPages_def)
  next
    case (Some e)
    with r have fa: "first_abort W parse startPage endPage = Some e" by simp
    from l Some show ?thesis unfolding fa by (simp add: extractQuestionsFromPages_def)
  qed
qed

lemma extract_progress:
  "ex_progress (fst (extractQuestionsFromPages W parse onProgress startPage endPage)) =
     (if onProgress
      then concat (map (\<lambda>q. progress_of startPage endPage q (page_step W parse q))
                       (pages_reached W parse startPage endPage))
      else [])"
proof -
  obtain st r where l: "extract_loop W parse onProgress startPage endPage startPage initial_extraction = (st, r)"
    by (cases "extract_loop W parse onProgress startPage endPage startPage initial_extraction")
  from extract_loop_char [of W parse onProgress startPage endPage startPage initial_extraction] l
  have "ex_progress st =
          (if onProgress
           then concat (map (\<lambda>q. progress_of startPage endPage q (page_step W parse q))
                            (pages_reached W parse startPage endPage))
           else [])"
    by (simp add: initial_extraction_def)
  with l show ?thesis by (cases r) (simp_all add: extractQuestionsFromPages_def)
qed

lemma progress_log:
  "ex_progress (fst (extractQuestionsFromPages X parse True startPage endPage)) =
     concat (map (\<lambda>q. progress_of startPage endPage q (page_step X parse q))
                 (pages_reached X parse startPage endPage))"
  by (simp add: extract_progress)



lemma progress_first_args:
  "map fst (concat (map (\<lambda>q. progress_of startPage endPage q (page_step W parse q)) ps)) =
     map (\<lambda>q. q - startPage + 1) (filter (\<lambda>q. \<exists>r. page_step W parse q = Extracted r) ps)"
proof (induction ps)
  case Nil
  show ?case by simp
next
  case (Cons q ps)
  then show ?case by (cases "page_step W parse q") simp_all
qed

lemma progress_entries:
  "c \<in> set (concat (map (\<lambda>q. progress_of startPage endPage q (page_step X parse q)) ps)) \<Longrightarrow>
   \<exists>q r. q \<in> set ps \<and> page_step X parse q = Extracted r
         \<and> c = (q - startPage + 1, endPage - startPage + 1, length (page_questions r))"
proof (induction ps)
  case Nil
  then show ?case by simp
next
  case (Cons q ps)
  then show ?case by (cases "page_step X parse q") auto
qed

lemma position_upto:
  "map (\<lambda>q. q - startPage + 1) [p..endPage] = [p - startPage + 1..endPage - startPage + 1]"
proof (induction "nat (endPage + 1 - p)" arbitrary: p)
  case 0
  then show ?case by simp
next
  case (Suc n)
  then have le: "p \<le> endPage" and n: "n = nat (endPage + 1 - (p + 1))" by simp_all
  from le have a: "[p..endPage] = p # [p + 1..endPage]" by (simp add: upto_rec1)
  from le have b: "[p - startPage + 1..endPage - startPage + 1] =
                     (p - startPage + 1) # [p + 1 - startPage + 1..endPage - startPage + 1]"
    by (subst upto_rec1) (simp_all add: algebra_simps)
  from Suc.hyps(1) [OF n] show ?case by (simp add: a b)
qed

lemma sorted_positions:
  "sorted_wrt (<) (map (\<lambda>q. q - startPage + 1)
                       (filter P (pages_reached X parse startPage endPage)))"
proof -
  have "[startPage..endPage] =
          pages_reached X parse startPage endPage
          @ dropWhile (\<lambda>q. abort_of (page_step X parse q) = None) [startPage..endPage]"
    by (simp add: pages_reached_def)
  moreover have "sorted_wrt (<) [startPage..endPage]" by simp
  ultimately have "sorted_wrt (<) (pages_reached X parse startPage endPage)"
    by (metis sorted_wrt_append)
  then have "sorted_wrt (<) (filter P (pages_reached X parse startPage endPage))"
    by (rule sorted_wrt_filter)
  then have "sorted_wrt (\<lambda>x y. x - startPage + 1 < y - startPage + 1)
                        (filter P (pages_reached X parse startPage endPage))"
    by (rule sorted_wrt_mono_rel [rotated]) simp
  then show ?thesis by (simp only: sorted_wrt_map)
qed



lemma completed_run:
  assumes "\<forall>q \<in> set [startPage..endPage]. abort_of (page_step X parse q) = None"
  shows "snd (extractQuestionsFromPages X parse onProgress startPage endPage) =
           Inr \<lparr>result_questions =
                  renumber (concat (map (\<lambda>q. questions_of (page_step X parse q)) [startPage..endPage])),
                totalUsage = ex_totalUsage (fst (extract_loop X parse onProgress startPage endPage
                                                   startPage initial_extraction)),
                pagesProcessed = endPage - startPage + 1\<rparr>"
    and "pages_reached X parse startPage endPage = [startPage..endPage]"
proof -
  from assms have "first_abort X parse startPage endPage = None"
    by (simp only: first_abort_None_iff)
  then show "snd (extractQuestionsFromPages X parse onProgress startPage endPage) =
           Inr \<lparr>result_questions =
                  renumber (concat (map (\<lambda>q. questions_of (page_step X parse q)) [startPage..endPage])),
                totalUsage = ex_totalUsage (fst (extract_loop X parse onProgress startPage endPage
                                                   startPage initial_extraction)),
                pagesProcessed = endPage - startPage + 1\<rparr>"
    and "pages_reached X parse startPage endPage = [startPage..endPage]"
    by (simp_all add: extract_result pages_reached_all)
qed

lemma run_completed_iff:
  "(\<exists>res. snd (extractQuestionsFromPages X parse onProgress startPage endPage) = Inr res) \<longleftrightarrow>
     (\<forall>q \<in> set [startPage..endPage]. abort_of (page_step X parse q) = None)"
  unfolding first_abort_None_iff [symmetric]
  by (cases "first_abort X parse startPage endPage") (simp_all add: extract_result)


lemma aborted_at:
  assumes "startPage \<le> p" and "p \<le> endPage"
    and "\<forall>q. startPage \<le> q \<and> q < p \<longrightarrow> abort_of (page_step X parse q) = None"
    and "abort_of (page_step X parse p) = Some e"
  shows "first_abort X parse startPage endPage = Some e"
    and "pages_reached X parse startPage endPage = [startPage..p - 1]"
proof -
  let ?P = "\<lambda>q. abort_of (page_step X parse q) = None"
  from assms(1,2) have s: "[startPage..endPage] = [startPage..p - 1] @ p # [p + 1..endPage]"
    by (rule upto_split3)
  from assms(3) have b: "\<And>q. q \<in> set [startPage..p - 1] \<Longrightarrow> ?P q" by simp
  from assms(4) have n: "\<not> ?P p" by simp
  have "dropWhile ?P [startPage..endPage] = dropWhile ?P (p # [p + 1..endPage])"
    unfolding s using b by (rule dropWhile_append2)
  with n assms(4) show "first_abort X parse startPage endPage = Some e"
    by (simp add: first_abort_def)
  have "takeWhile ?P [startPage..endPage] = [startPage..p - 1] @ takeWhile ?P (p # [p + 1..endPage])"
    unfolding s using b by (rule takeWhile_append2)
  with n show "pages_reached X parse startPage endPage = [startPage..p - 1]"
    by (simp add: pages_reached_def)
qed



section \<open>The examples evaluated\<close>

lemma chars_units: "map char_of (units s) = s"
  by (simp add: units_def o_def)

lemmas json_eval = json_parse_def json_whitespace_def is_digit_def unescape_def hex_value_def
  lex_number_def lex_int_def lex_frac_def lex_exp_def lex_digits_def Let_def

lemmas decode_eval = member_def units_def raw_question_of_def text_of_def texts_of_def
  index_of_def char_of_def bit_Suc_0_iff

lemma parse_two_questions:
  "parse_question_response two_questions =
     Some \<lparr>response_questions =
             Some [\<lparr>questionText = ''Q1'', choices = [''a'', ''b''], correctChoice = Some 1\<rparr>,
                   \<lparr>questionText = ''Q2'', choices = [''c'', ''d''], correctChoice = None\<rparr>]\<rparr>"
  by (simp add: parse_question_response_def two_questions_def json_eval decode_eval)

lemma parse_no_questions:
  "parse_question_response no_questions = Some \<lparr>response_questions = Some []\<rparr>"
  by (simp add: parse_question_response_def no_questions_def json_eval decode_eval)

lemma parse_one_question:
  "parse_question_response one_question =
     Some \<lparr>response_questions =
             Some [\<lparr>questionText = ''Q3'', choices = [''e'', ''f''], correctChoice = Some 0\<rparr>]\<rparr>"
  by (simp add: parse_question_response_def one_question_def json_eval decode_eval)

lemma parse_fenced:
  "parse_question_response fenced_no_questions = None"
  by (simp add: parse_question_response_def fenced_no_questions_def no_questions_def json_eval)

lemma parse_example_explanation:
  "parse_explanation_response ''{\"explanation\": \"Median nerve.\"}'' =
     Some \<lparr>response_explanation = ''Median nerve.''\<rparr>"
  by (simp add: parse_explanation_response_def json_eval decode_eval)

lemma example_images:
  "convertPdfPagesToImages (document example_pages p) [p] =
     Inr (if p = 1 then [\<lparr>img_pageNumber = 1, base64 = ''iVBORw0KGgo='', mimeType = ''image/png''\<rparr>]
          else if p = 2 then [\<lparr>img_pageNumber = 2, base64 = ''iVBORw0KGgp='', mimeType = ''image/png''\<rparr>]
          else if p = 3 then [\<lparr>img_pageNumber = 3, base64 = ''iVBORw0KGgq='', mimeType = ''image/png''\<rparr>]
          else [])"
  by (simp add: convertPdfPagesToImages_def example_pages_def enumerate_eq_zip upt_rec)

lemma example_replies:
  "page_reply example_pages p =
     (if p = 1 then Inr (reply_with two_questions)
      else if p = 2 then Inr (reply_with no_questions)
      else Inr (reply_with one_question))"
  "document fenced_pages p = document example_pages p"
  "page_reply fenced_pages p =
     (if p = 2 then Inr (reply_with fenced_no_questions) else page_reply example_pages p)"
  by (simp_all add: example_pages_def fenced_pages_def)

lemma example_page_steps:
  "page_step example_pages parse_question_response 1 =
     Extracted \<lparr>page_pageNumber = 1,
                page_questions =
                  [\<lparr>questionText = ''Q1'', choices = [''a'', ''b''], correctChoice = Some 1,
                    pageNumber = 1, questionNumber = Some 1\<rparr>,
                   \<lparr>questionText = ''Q2'', choices = [''c'', ''d''], correctChoice = None,
                    pageNumber = 1, questionNumber = Some 2\<rparr>],
                page_usage = \<lparr>promptTokens = 40, completionTokens = 20, totalTokens = 60\<rparr>\<rparr>"
  "page_step example_pages parse_question_response 2 =
     Extracted \<lparr>page_pageNumber = 2, page_questions = [],
                page_usage = \<lparr>promptTokens = 40, completionTokens = 20, totalTokens = 60\<rparr>\<rparr>"
  "page_step example_pages parse_question_response 3 =
     Extracted \<lparr>page_pageNumber = 3,
                page_questions =
                  [\<lparr>questionText = ''Q3'', choices = [''e'', ''f''], correctChoice = Some 0,
                    pageNumber = 3, questionNumber = Some 1\<rparr>],
                page_usage = \<lparr>promptTokens = 40, completionTokens = 20, totalTokens = 60\<rparr>\<rparr>"
  "page_step example_pages parse_question_response 4 = NoImage"
  by (simp_all add: page_step_def example_images example_replies extractQuestionsFromPage_def
        analyzeImage_def Let_def reply_with_def text_or_empty_def response_usage_def count_or_zero_def
        parse_two_questions parse_no_questions parse_one_question enumerate_eq_zip upt_rec)

lemma fenced_page_step:
  "page_step fenced_pages parse_question_response 2 =
     Aborted (ModelOutputParseError (''Failed to parse Gemini response as JSON: '' @ fenced_no_questions))"
  by (simp add: page_step_def example_images example_replies extractQuestionsFromPage_def
        analyzeImage_def Let_def reply_with_def text_or_empty_def response_usage_def count_or_zero_def
        parse_fenced)


lemma example_outcomes:
  "explanation_outcome example_world parse_explanation_response idx =
     (if idx = 3 then Inl (ModelCallError ''fetch failed'')
      else Inr \<lparr>result_explanation = ''Median nerve.'', result_tokensUsed = 60\<rparr>)"
  "explanation_outcome reliable_world parse_explanation_response idx =
     Inr \<lparr>result_explanation = ''Median nerve.'', result_tokensUsed = 60\<rparr>"
  by (simp_all add: explanation_outcome_def generateExplanation_def generateJson_def Let_def
        example_world_def reliable_world_def example_reply_def reply_with_def text_or_empty_def
        response_usage_def count_or_zero_def parse_example_explanation)


lemma example_pending:
  "questionsToProcess example_paper False = [0, 2, 3, 4, 5]"
  "questionsToProcess example_paper True = [0, 2, 4, 5]"
  "questionsToProcess unanswered_paper skipExisting = []"
  by (simp_all add: questionsToProcess_filter example_paper_def unanswered_paper_def
        example_question_def upt_rec)

lemma example_explanations:
  "explanation (questions example_paper ! 3) = Text ''old''"
  "explanation (questions example_paper ! 1) = Absent"
  "explanation (questions example_paper ! Suc 0) = Absent"
  "length (questions example_paper) = 6"
  by (simp_all add: example_paper_def example_question_def)

lemma long_paper_pending: "questionsToProcess long_paper False = [0..<23]"
proof -
  have "\<forall>i \<in> set [0..<23]. correctChoice (questions long_paper ! i) \<noteq> None"
    by (simp add: long_paper_def example_question_def)
  then have "filter (\<lambda>i. correctChoice (questions long_paper ! i) \<noteq> None) [0..<23] = [0..<23]"
    by (simp only: filter_id_conv)
  moreover have "length (questions long_paper) = 23" by (simp add: long_paper_def)
  ultimately show ?thesis by (simp add: questionsToProcess_filter)
qed

lemma range_1_3: "[1..3] = [1, 2, 3::int]" "[2..4] = [2, 3, 4::int]"
  by (simp_all add: upto_rec1)


lemma fenced_other_pages:
  "p \<noteq> 2 \<Longrightarrow> page_step fenced_pages parse p = page_step example_pages parse p"
  by (simp add: page_step_def example_replies split: sum.splits)

lemma range_1_1: "[1..2 - 1] = [1::int]"
  by (simp add: upto_rec1)

lemma fenced_first_page:
  "page_step fenced_pages parse_question_response 1 =
     Extracted \<lparr>page_pageNumber = 1,
                page_questions =
                  [\<lparr>questionText = ''Q1'', choices = [''a'', ''b''], correctChoice = Some 1,
                    pageNumber = 1, questionNumber = Some 1\<rparr>,
                   \<lparr>questionText = ''Q2'', choices = [''c'', ''d''], correctChoice = None,
                    pageNumber = 1, questionNumber = Some 2\<rparr>],
                page_usage = \<lparr>promptTokens = 40, completionTokens = 20, totalTokens = 60\<rparr>\<rparr>"
  by (simp add: fenced_other_pages example_page_steps)


lemma garbage_text:
  "replicate 600 (CHR ''x'') = CHR ''x'' # replicate 599 (CHR ''x'')"
  "last (replicate 600 (CHR ''x'')) = CHR ''x''"
  "list_all plain_char (replicate 600 (CHR ''x''))"
proof -
  have "(600::nat) = Suc 599" by simp
  then show "replicate 600 (CHR ''x'') = CHR ''x'' # replicate 599 (CHR ''x'')"
    by (simp only: replicate_Suc)
  show "last (replicate 600 (CHR ''x'')) = CHR ''x''" by simp
  show "list_all plain_char (replicate 600 (CHR ''x''))"
    by (simp add: list_all_iff plain_char_def)
qed

lemma sanitize_garbage:
  "sanitizeJsonResponse (replicate 600 (CHR ''x'')) = replicate 600 (CHR ''x'')"
proof -
  let ?g = "replicate 600 (CHR ''x'')"
  have t: "trim ?g = ?g"
    by (rule trim_id) (simp_all add: js_whitespace_def)
  have "\<not> startsWith ?g ''```json''" "\<not> startsWith ?g ''```''"
    by (simp_all add: startsWith_def garbage_text(1))
  moreover have "\<not> endsWith ?g ''```''"
    by (simp add: endsWith_def numeral_3_eq_3)
  ultimately have "strip_fences ?g = ?g" by (simp add: strip_fences_def)
  moreover have "scan False False ?g = ?g"
    using scan_plain [OF garbage_text(3), of False "[]"] by simp
  ultimately show ?thesis by (simp add: sanitizeJsonResponse_scan t)
qed

lemma garbage_not_json: "json_parse (replicate 600 (CHR ''x'')) = None"
  by (simp add: garbage_text(1) json_parse_def json_whitespace_def is_digit_def)

section \<open>The claims\<close>






text \<open>
  Claim C3, with the final write as the code has it. A checkpoint is due when the count
  of successes is an exact multiple of \<open>batchSize\<close>. When at least one question is pending,
  the writes of a run are: for each success count that is such a multiple, the paper data
  as it is after that many successes; then one final write of the final paper data,
  whatever the alignment. When no question is pending the run exits before the loop and
  writes nothing. With \<open>batchSize = 10\<close> and 23 pending questions that all succeed there
  are exactly three writes: the data after the 10th, the 20th and the 23rd success.
\<close>

theorem checkpoint_cadence:
  "(checkpoint_due j batchSize \<longleftrightarrow> (\<exists>b. batchSize = Some b \<and> b \<noteq> 0 \<and> b dvd int j))
   \<and> (questionsToProcess d skipExisting \<noteq> [] \<longrightarrow>
        st_writes (fst (main W parse d batchSize skipExisting)) =
          map (\<lambda>j. apply_explanations d (take j (successes W parse (questionsToProcess d skipExisting))))
              (filter (\<lambda>j. checkpoint_due j batchSize)
                      [1..<Suc (length (successes W parse (questionsToProcess d skipExisting)))])
          @ [apply_explanations d (successes W parse (questionsToProcess d skipExisting))]
        \<and> last (st_writes (fst (main W parse d batchSize skipExisting)))
            = st_data (fst (main W parse d batchSize skipExisting)))
   \<and> (questionsToProcess d skipExisting = [] \<longrightarrow>
        st_writes (fst (main W parse d batchSize skipExisting)) = [])
   \<and> (length (questionsToProcess d skipExisting) = 23
       \<and> (\<forall>i \<in> set (questionsToProcess d skipExisting). \<exists>r. explanation_outcome W parse i = Inr r) \<longrightarrow>
        st_writes (fst (main W parse d (Some 10) skipExisting)) =
          [apply_explanations d (take 10 (successes W parse (questionsToProcess d skipExisting))),
           apply_explanations d (take 20 (successes W parse (questionsToProcess d skipExisting))),
           apply_explanations d (successes W parse (questionsToProcess d skipExisting))])"
proof (intro conjI impI)
  show "checkpoint_due j batchSize \<longleftrightarrow> (\<exists>b. batchSize = Some b \<and> b \<noteq> 0 \<and> b dvd int j)"
    by (rule checkpoint_due_iff)
next
  assume "questionsToProcess d skipExisting \<noteq> []"
  then show "st_writes (fst (main W parse d batchSize skipExisting)) =
          map (\<lambda>j. apply_explanations d (take j (successes W parse (questionsToProcess d skipExisting))))
              (filter (\<lambda>j. checkpoint_due j batchSize)
                      [1..<Suc (length (successes W parse (questionsToProcess d skipExisting)))])
          @ [apply_explanations d (successes W parse (questionsToProcess d skipExisting))]"
    and "last (st_writes (fst (main W parse d batchSize skipExisting)))
            = st_data (fst (main W parse d batchSize skipExisting))"
    by (simp add: main_writes del: upt_Suc, rule main_last_write)
next
  assume "questionsToProcess d skipExisting = []"
  then show "st_writes (fst (main W parse d batchSize skipExisting)) = []"
    by (simp add: main_writes)
next
  let ?S = "successes W parse (questionsToProcess d skipExisting)"
  assume a: "length (questionsToProcess d skipExisting) = 23
       \<and> (\<forall>i \<in> set (questionsToProcess d skipExisting). \<exists>r. explanation_outcome W parse i = Inr r)"
  then have len: "length ?S = 23" using successes_all [of "questionsToProcess d skipExisting" W parse]
    by simp
  from a have ne: "questionsToProcess d skipExisting \<noteq> []" by auto
  have "st_writes (fst (main W parse d (Some 10) skipExisting)) =
          map (\<lambda>j. apply_explanations d (take j ?S))
              (filter (\<lambda>j. checkpoint_due j (Some 10)) [1..<Suc 23])
          @ [apply_explanations d ?S]"
    using ne by (simp add: main_writes len del: upt_Suc)
  then show "st_writes (fst (main W parse d (Some 10) skipExisting)) =
          [apply_explanations d (take 10 ?S), apply_explanations d (take 20 ?S),
           apply_explanations d ?S]"
    by (simp only: due_10) simp
qed

theorem checkpoint_cadence_witness:
  "questionsToProcess long_paper False \<noteq> []
   \<and> length (questionsToProcess long_paper False) = 23
   \<and> (\<forall>i. \<exists>r. explanation_outcome reliable_world parse_explanation_response i = Inr r)
   \<and> length (st_writes (fst (main reliable_world parse_explanation_response long_paper
                                 (Some 10) False))) = 3
   \<and> last (st_writes (fst (main reliable_world parse_explanation_response long_paper
                                 (Some 10) False)))
       = st_data (fst (main reliable_world parse_explanation_response long_paper (Some 10) False))"
proof -
  have h: "questionsToProcess long_paper False \<noteq> []
           \<and> length (questionsToProcess long_paper False) = 23
           \<and> (\<forall>i \<in> set (questionsToProcess long_paper False).
                 \<exists>r. explanation_outcome reliable_world parse_explanation_response i = Inr r)"
    by (simp add: long_paper_pending example_outcomes)
  note c = checkpoint_cadence [of 10 "Some 10" long_paper False reliable_world
                                  parse_explanation_response]
  from c [THEN conjunct2, THEN conjunct2, THEN conjunct2] h
  have "st_writes (fst (main reliable_world parse_explanation_response long_paper (Some 10) False)) =
          [apply_explanations long_paper
             (take 10 (successes reliable_world parse_explanation_response
                         (questionsToProcess long_paper False))),
           apply_explanations long_paper
             (take 20 (successes reliable_world parse_explanation_response
                         (questionsToProcess long_paper False))),
           apply_explanations long_paper
             (successes reliable_world parse_explanation_response
                (questionsToProcess long_paper False))]"
    by blast
  then have "length (st_writes (fst (main reliable_world parse_explanation_response long_paper
                                   (Some 10) False))) = 3"
    by simp
  moreover from c [THEN conjunct2, THEN conjunct1] h
  have "last (st_writes (fst (main reliable_world parse_explanation_response long_paper
                                 (Some 10) False)))
            = st_data (fst (main reliable_world parse_explanation_response long_paper (Some 10) False))"
    by blast
  ultimately have "length (st_writes (fst (main reliable_world parse_explanation_response long_paper
                                   (Some 10) False))) = 3
        \<and> last (st_writes (fst (main reliable_world parse_explanation_response long_paper
                                 (Some 10) False)))
            = st_data (fst (main reliable_world parse_explanation_response long_paper (Some 10) False))"
    by blast
  moreover have "\<forall>i. \<exists>r. explanation_outcome reliable_world parse_explanation_response i = Inr r"
    by (simp add: example_outcomes)
  ultimately show ?thesis using h by blast
qed

theorem no_final_write_when_nothing_pending:
  "st_writes (fst (main example_world parse_explanation_response unanswered_paper (Some 10) False)) = []
   \<and> snd (main example_world parse_explanation_response unanswered_paper (Some 10) False) = NothingToDo"
  by (simp add: main_writes main_outcome example_pending)



text \<open>
  Claim C5, with the pages that have no image as the code treats them. With a callback
  supplied, the calls of the callback are exactly these, in page order: one call for each
  page, among the pages before the first page that throws (all the pages of the range
  when none throws), that yields an image, with the position of the page in the range,
  the number of pages of the range and the number of questions found on the page. In
  particular, when page \<open>a\<close> is the first to throw, the calls are those of the pages
  before \<open>a\<close>. So the first argument is strictly increasing and lies in 1..N. When the run
  returns and every page yields an image, the first argument takes every value 1..N
  exactly once, in increasing order. A page that yields no image gets no call: its
  position is never reported. Without a callback nothing is reported.
\<close>

theorem progress_callback:
  "ex_progress (fst (extractQuestionsFromPages X parse True startPage endPage)) =
     concat (map (\<lambda>q. progress_of startPage endPage q (page_step X parse q))
                 (pages_reached X parse startPage endPage))
   \<and> (startPage \<le> a \<and> a \<le> endPage
        \<and> (\<forall>q. startPage \<le> q \<and> q < a \<longrightarrow> abort_of (page_step X parse q) = None)
        \<and> abort_of (page_step X parse a) = Some e \<longrightarrow>
        ex_progress (fst (extractQuestionsFromPages X parse True startPage endPage)) =
          concat (map (\<lambda>q. progress_of startPage endPage q (page_step X parse q))
                      [startPage..a - 1]))
   \<and> sorted_wrt (<) (map fst (ex_progress (fst (extractQuestionsFromPages X parse True startPage endPage))))
   \<and> (\<forall>c \<in> set (ex_progress (fst (extractQuestionsFromPages X parse True startPage endPage))).
         \<exists>q r. startPage \<le> q \<and> q \<le> endPage \<and> page_step X parse q = Extracted r
               \<and> c = (q - startPage + 1, endPage - startPage + 1, length (page_questions r)))
   \<and> ((\<exists>res. snd (extractQuestionsFromPages X parse True startPage endPage) = Inr res) \<longrightarrow>
        ex_progress (fst (extractQuestionsFromPages X parse True startPage endPage)) =
          concat (map (\<lambda>q. progress_of startPage endPage q (page_step X parse q))
                      [startPage..endPage]))
   \<and> ((\<exists>res. snd (extractQuestionsFromPages X parse True startPage endPage) = Inr res)
       \<and> (\<forall>q \<in> set [startPage..endPage]. page_step X parse q \<noteq> NoImage) \<longrightarrow>
        map fst (ex_progress (fst (extractQuestionsFromPages X parse True startPage endPage)))
          = [1..endPage - startPage + 1])
   \<and> (page_step X parse p = NoImage \<longrightarrow>
        p - startPage + 1
          \<notin> set (map fst (ex_progress (fst (extractQuestionsFromPages X parse True startPage endPage)))))
   \<and> ex_progress (fst (extractQuestionsFromPages X parse False startPage endPage)) = []"
proof (intro conjI impI ballI)
  let ?log = "ex_progress (fst (extractQuestionsFromPages X parse True startPage endPage))"
  have firsts: "map fst ?log =
                  map (\<lambda>q. q - startPage + 1)
                      (filter (\<lambda>q. \<exists>r. page_step X parse q = Extracted r)
                              (pages_reached X parse startPage endPage))"
    by (simp only: progress_log progress_first_args)
  show "sorted_wrt (<) (map fst ?log)"
    unfolding firsts by (rule sorted_positions)
  show "?log = concat (map (\<lambda>q. progress_of startPage endPage q (page_step X parse q))
                           (pages_reached X parse startPage endPage))"
    by (rule progress_log)
  {
    assume "startPage \<le> a \<and> a \<le> endPage
        \<and> (\<forall>q. startPage \<le> q \<and> q < a \<longrightarrow> abort_of (page_step X parse q) = None)
        \<and> abort_of (page_step X parse a) = Some e"
    then have "startPage \<le> a" "a \<le> endPage"
      "\<forall>q. startPage \<le> q \<and> q < a \<longrightarrow> abort_of (page_step X parse q) = None"
      "abort_of (page_step X parse a) = Some e"
      by simp_all
    from aborted_at(2) [OF this]
    show "?log = concat (map (\<lambda>q. progress_of startPage endPage q (page_step X parse q))
                             [startPage..a - 1])"
      by (simp only: progress_log)
  }
  show "ex_progress (fst (extractQuestionsFromPages X parse False startPage endPage)) = []"
    by (simp add: extract_progress)
  {
    fix c assume "c \<in> set ?log"
    then have "c \<in> set (concat (map (\<lambda>q. progress_of startPage endPage q (page_step X parse q))
                                     (pages_reached X parse startPage endPage)))"
      by (simp only: progress_log)
    from progress_entries [OF this] obtain q r
      where q: "q \<in> set (pages_reached X parse startPage endPage)"
        and r: "page_step X parse q = Extracted r"
        and c: "c = (q - startPage + 1, endPage - startPage + 1, length (page_questions r))"
      by blast
    from q pages_reached_subset [of X parse startPage endPage]
    have "startPage \<le> q \<and> q \<le> endPage" by auto
    with r c
    show "\<exists>q r. startPage \<le> q \<and> q \<le> endPage \<and> page_step X parse q = Extracted r
               \<and> c = (q - startPage + 1, endPage - startPage + 1, length (page_questions r))"
      by blast
  }
  {
    assume "\<exists>res. snd (extractQuestionsFromPages X parse True startPage endPage) = Inr res"
    then have "\<forall>q \<in> set [startPage..endPage]. abort_of (page_step X parse q) = None"
      by (simp only: run_completed_iff)
    from completed_run(2) [OF this]
    show "?log = concat (map (\<lambda>q. progress_of startPage endPage q (page_step X parse q))
                             [startPage..endPage])"
      by (simp add: progress_log)
  }
  {
    assume a: "(\<exists>res. snd (extractQuestionsFromPages X parse True startPage endPage) = Inr res)
       \<and> (\<forall>q \<in> set [startPage..endPage]. page_step X parse q \<noteq> NoImage)"
    then have ok: "\<forall>q \<in> set [startPage..endPage]. abort_of (page_step X parse q) = None"
      unfolding run_completed_iff by (rule conjunct1)
    have "\<forall>q \<in> set [startPage..endPage]. \<exists>r. page_step X parse q = Extracted r"
    proof
      fix q assume q: "q \<in> set [startPage..endPage]"
      with a ok have "page_step X parse q \<noteq> NoImage" "abort_of (page_step X parse q) = None"
        by blast+
      then show "\<exists>r. page_step X parse q = Extracted r"
        by (cases "page_step X parse q") simp_all
    qed
    then have "filter (\<lambda>q. \<exists>r. page_step X parse q = Extracted r) [startPage..endPage]
                 = [startPage..endPage]"
      by (simp only: filter_id_conv)
    with completed_run(2) [OF ok] firsts
    have "map fst ?log = map (\<lambda>q. q - startPage + 1) [startPage..endPage]" by simp
    then show "map fst ?log = [1..endPage - startPage + 1]"
      by (simp add: position_upto)
  }
  {
    assume n: "page_step X parse p = NoImage"
    show "p - startPage + 1 \<notin> set (map fst ?log)"
    proof
      assume "p - startPage + 1 \<in> set (map fst ?log)"
      then obtain q where "q - startPage + 1 = p - startPage + 1"
        and "\<exists>r. page_step X parse q = Extracted r"
        unfolding firsts by auto
      with n show False by simp
    qed
  }
qed

theorem progress_callback_witness:
  "(\<exists>res. snd (extractQuestionsFromPages example_pages parse_question_response True 1 3) = Inr res)
   \<and> page_step example_pages parse_question_response 1 \<noteq> NoImage
   \<and> page_step example_pages parse_question_response 2 \<noteq> NoImage
   \<and> page_step example_pages parse_question_response 3 \<noteq> NoImage
   \<and> map fst (ex_progress (fst (extractQuestionsFromPages example_pages parse_question_response
                                   True 1 3))) = [1, 2, 3]
   \<and> page_step example_pages parse_question_response 4 = NoImage
   \<and> 3 \<notin> set (map fst (ex_progress (fst (extractQuestionsFromPages example_pages
                                              parse_question_response True 2 4))))
   \<and> abort_of (page_step fenced_pages parse_question_response 1) = None
   \<and> abort_of (page_step fenced_pages parse_question_response 2) =
        Some (ModelOutputParseError (''Failed to parse Gemini response as JSON: '' @ fenced_no_questions))
   \<and> ex_progress (fst (extractQuestionsFromPages fenced_pages parse_question_response True 1 3))
        = [(1, 3, 2)]"
proof -
  let ?err = "ModelOutputParseError (''Failed to parse Gemini response as JSON: '' @ fenced_no_questions)"
  have f: "(1::int) \<le> 2 \<and> (2::int) \<le> 3
           \<and> (\<forall>q. (1::int) \<le> q \<and> q < 2 \<longrightarrow>
                  abort_of (page_step fenced_pages parse_question_response q) = None)
           \<and> abort_of (page_step fenced_pages parse_question_response 2) = Some ?err"
  proof (intro conjI allI impI)
    fix q :: int
    assume "1 \<le> q \<and> q < 2"
    then have "q = 1" by simp
    then show "abort_of (page_step fenced_pages parse_question_response q) = None"
      by (simp add: fenced_first_page)
  qed (simp_all add: fenced_page_step)
  from progress_callback [of fenced_pages parse_question_response 1 3 2 ?err 4] f
  have c: "ex_progress (fst (extractQuestionsFromPages fenced_pages parse_question_response True 1 3))
             = concat (map (\<lambda>q. progress_of 1 3 q (page_step fenced_pages parse_question_response q))
                           [1..2 - 1])"
    by blast
  have ok: "\<forall>q \<in> set [1..3]. abort_of (page_step example_pages parse_question_response q) = None"
    by (simp only: range_1_3) (simp add: example_page_steps)
  have im: "\<forall>q \<in> set [1..3]. page_step example_pages parse_question_response q \<noteq> NoImage"
    by (simp only: range_1_3) (simp add: example_page_steps)
  from ok have "\<exists>res. snd (extractQuestionsFromPages example_pages parse_question_response True 1 3)
                      = Inr res"
    by (simp only: run_completed_iff)
  with im
  have h: "(\<exists>res. snd (extractQuestionsFromPages example_pages parse_question_response True 1 3) = Inr res)
           \<and> (\<forall>q \<in> set [1..3]. page_step example_pages parse_question_response q \<noteq> NoImage)"
    by (rule conjI [rotated])
  from progress_callback [of example_pages parse_question_response 1 3 _ _ 4] h
  have a: "map fst (ex_progress (fst (extractQuestionsFromPages example_pages parse_question_response
                                   True 1 3))) = [1..3 - 1 + 1]"
    by blast
  have n: "page_step example_pages parse_question_response 4 = NoImage"
    by (simp add: example_page_steps)
  from progress_callback [of example_pages parse_question_response 2 4 _ _ 4] n
  have b: "4 - 2 + 1 \<notin> set (map fst (ex_progress (fst (extractQuestionsFromPages example_pages
                                              parse_question_response True 2 4))))"
    by blast
  from h a n b c f show ?thesis
    by (simp add: range_1_3 example_page_steps range_1_1 fenced_first_page fenced_page_step)
qed

theorem progress_skips_page_without_image:
  "map fst (ex_progress (fst (extractQuestionsFromPages example_pages parse_question_response
                                True 2 4))) = [1, 2]
   \<and> (\<exists>res. snd (extractQuestionsFromPages example_pages parse_question_response True 2 4) = Inr res
             \<and> pagesProcessed res = 3)"
proof -
  have ok: "\<forall>q \<in> set [2..4]. abort_of (page_step example_pages parse_question_response q) = None"
    by (simp only: range_1_3) (simp add: example_page_steps)
  from completed_run(1) [OF ok, of True] completed_run(2) [OF ok] show ?thesis
    by (simp add: progress_log range_1_3 example_page_steps)
qed




text \<open>
  Claim C8. The pending set is the list of the indices, in the original order, of the
  questions that are not skipped: a question is skipped when \<open>skipExisting\<close> is set and its
  explanation is present (a non-empty string), and skipped in any case when its correct
  choice is \<open>null\<close>. The questions sent to the model in a run are exactly the pending
  ones, each once and in that order; so a question whose correct choice is \<open>null\<close> is
  never sent, whatever \<open>skipExisting\<close> is.
\<close>

theorem pending_set_characterization:
  "questionsToProcess d skipExisting =
     filter (\<lambda>i. \<not> (skipExisting \<and> truthy (explanation (questions d ! i)))
                  \<and> correctChoice (questions d ! i) \<noteq> None) [0..<length (questions d)]
   \<and> st_calls (fst (main W parse d batchSize skipExisting)) = questionsToProcess d skipExisting
   \<and> (\<forall>i < length (questions d). correctChoice (questions d ! i) = None \<longrightarrow>
         i \<notin> set (st_calls (fst (main W parse d batchSize skipExisting))))"
proof -
  have "\<forall>i < length (questions d). correctChoice (questions d ! i) = None \<longrightarrow>
          i \<notin> set (questionsToProcess d skipExisting)"
    by (simp add: questionsToProcess_filter)
  then show ?thesis
    by (simp add: main_calls) (simp add: questionsToProcess_filter)
qed

theorem pending_set_characterization_witness:
  "1 < length (questions example_paper) \<and> correctChoice (questions example_paper ! 1) = None
   \<and> 1 \<notin> set (st_calls (fst (main example_world parse_explanation_response example_paper
                                   (Some 10) True)))
   \<and> st_calls (fst (main example_world parse_explanation_response example_paper (Some 10) True))
       = [0, 2, 4, 5]"
proof -
  have h: "1 < length (questions example_paper) \<and> correctChoice (questions example_paper ! 1) = None"
    by (simp add: example_paper_def example_question_def)
  have f: "filter (\<lambda>i. \<not> (True \<and> truthy (explanation (questions example_paper ! i)))
                        \<and> correctChoice (questions example_paper ! i) \<noteq> None)
                  [0..<length (questions example_paper)] = [0, 2, 4, 5]"
    by (simp add: example_paper_def example_question_def upt_rec)
  from pending_set_characterization
         [of example_paper True example_world parse_explanation_response "Some 10"] h f
  show ?thesis by simp
qed

text \<open>
  Claim C9. When the response text fails to parse, \<open>generateJson\<close> parses the repaired
  text, repaired once: if that succeeds the call returns the parsed data; if it fails
  the call throws an error whose message is a fixed prefix, the first 500 characters of
  the raw text and an ellipsis, so at most 544 characters whatever the length of the
  text. When the text parses at first, the data is returned without repair.
\<close>

theorem generateJson_parse_failure:
  "(parse (text_or_empty response) = None
      \<and> parse (sanitizeJsonResponse (text_or_empty response)) = Some d \<longrightarrow>
      snd (generateJson parse client (Inr response))
        = Inr \<lparr>data = d, usage = response_usage response\<rparr>)
   \<and> (parse (text_or_empty response) = None
      \<and> parse (sanitizeJsonResponse (text_or_empty response)) = None \<longrightarrow>
      snd (generateJson parse client (Inr response))
        = Inl (ModelOutputParseError
                 (''Failed to parse Gemini response as JSON: ''
                  @ take 500 (text_or_empty response) @ ''...''))
      \<and> length (''Failed to parse Gemini response as JSON: ''
                 @ take 500 (text_or_empty response) @ ''...'') \<le> 544)
   \<and> (parse (text_or_empty response) = Some d \<longrightarrow>
      snd (generateJson parse client (Inr response))
        = Inr \<lparr>data = d, usage = response_usage response\<rparr>)"
  by (simp add: generateJson_def Let_def substring0_def)

theorem generateJson_parse_failure_witness:
  "json_parse (text_or_empty (reply_with (replicate 600 (CHR ''x'')))) = None
   \<and> json_parse (sanitizeJsonResponse (text_or_empty (reply_with (replicate 600 (CHR ''x''))))) = None
   \<and> snd (generateJson json_parse new_client (Inr (reply_with (replicate 600 (CHR ''x'')))))
       = Inl (ModelOutputParseError
                (''Failed to parse Gemini response as JSON: '' @ replicate 500 (CHR ''x'') @ ''...''))
   \<and> json_parse (text_or_empty (reply_with (fenced (object_text ''explanation'' (''a'' @ [LF] @ ''b''))))) = None
   \<and> snd (generateJson json_parse new_client
             (Inr (reply_with (fenced (object_text ''explanation'' (''a'' @ [LF] @ ''b''))))))
       = Inr \<lparr>data = JObject [(units ''explanation'', JString (units (''a'' @ [LF] @ ''b'')))],
              usage = \<lparr>promptTokens = 40, completionTokens = 20, totalTokens = 60\<rparr>\<rparr>"
proof -
  let ?g = "reply_with (replicate 600 (CHR ''x''))"
  let ?f = "reply_with (fenced (object_text ''explanation'' (''a'' @ [LF] @ ''b'')))"
  let ?d = "JObject [(units ''explanation'', JString (units (''a'' @ [LF] @ ''b'')))]"
  have tg: "text_or_empty ?g = replicate 600 (CHR ''x'')"
    and tf: "text_or_empty ?f = fenced (object_text ''explanation'' (''a'' @ [LF] @ ''b''))"
    and uf: "response_usage ?f = \<lparr>promptTokens = 40, completionTokens = 20, totalTokens = 60\<rparr>"
    by (simp_all add: reply_with_def text_or_empty_def response_usage_def count_or_zero_def)
  have hg: "json_parse (text_or_empty ?g) = None
            \<and> json_parse (sanitizeJsonResponse (text_or_empty ?g)) = None"
    by (simp only: tg sanitize_garbage garbage_not_json)
  have "list_all plain_char ''explanation'' \<and> list_all plain_char ''a'' \<and> list_all plain_char ''b''"
    by (simp add: plain_char_def)
  then have "list_all plain_char ''explanation''" "list_all content_char (''a'' @ [LF] @ ''b'')"
    by (simp_all add: plain_content content_char_def)
  then have "json_parse (sanitizeJsonResponse (fenced (object_text ''explanation'' (''a'' @ [LF] @ ''b''))))
             = Some ?d"
    by (simp only: sanitize_fenced_object parse_object)
  with fence_not_json [of "object_text ''explanation'' (''a'' @ [LF] @ ''b'')"]
  have hf: "json_parse (text_or_empty ?f) = None
            \<and> json_parse (sanitizeJsonResponse (text_or_empty ?f)) = Some ?d"
    by (simp only: tf)
  note t1 = generateJson_parse_failure [of json_parse ?g _ new_client]
  note t2 = generateJson_parse_failure [of json_parse ?f ?d new_client]
  from t1 [THEN conjunct2, THEN conjunct1] hg
  have "snd (generateJson json_parse new_client (Inr ?g))
          = Inl (ModelOutputParseError
                   (''Failed to parse Gemini response as JSON: '' @ take 500 (text_or_empty ?g) @ ''...''))"
    by blast
  then have a: "snd (generateJson json_parse new_client (Inr ?g))
          = Inl (ModelOutputParseError
                   (''Failed to parse Gemini response as JSON: '' @ replicate 500 (CHR ''x'') @ ''...''))"
    by (simp add: tg)
  from t2 [THEN conjunct1] hf
  have b: "snd (generateJson json_parse new_client (Inr ?f)) = Inr \<lparr>data = ?d, usage = response_usage ?f\<rparr>"
    by blast
  from hg hf a b show ?thesis by (simp only: uf)
qed

text \<open>
  Claim C10. A backfill run changes nothing but the \<open>explanation\<close> field of the questions
  it processed successfully: the paper's name, source and stats and the number of
  questions are unchanged; every question keeps its text, choices, correct choice and
  order index; a question that is not pending, or whose generation call fails, keeps
  the explanation it had; a pending question whose call returns gets the explanation
  returned. Saving a checkpoint leaves the paper data as it is.
\<close>

theorem backfill_frame:
  "name (st_data (fst (main W parse d batchSize skipExisting))) = name d
   \<and> source (st_data (fst (main W parse d batchSize skipExisting))) = source d
   \<and> stats (st_data (fst (main W parse d batchSize skipExisting))) = stats d
   \<and> length (questions (st_data (fst (main W parse d batchSize skipExisting)))) = length (questions d)
   \<and> (\<forall>i < length (questions d).
         questionText (questions (st_data (fst (main W parse d batchSize skipExisting))) ! i)
           = questionText (questions d ! i)
         \<and> choices (questions (st_data (fst (main W parse d batchSize skipExisting))) ! i)
           = choices (questions d ! i)
         \<and> correctChoice (questions (st_data (fst (main W parse d batchSize skipExisting))) ! i)
           = correctChoice (questions d ! i)
         \<and> orderIndex (questions (st_data (fst (main W parse d batchSize skipExisting))) ! i)
           = orderIndex (questions d ! i)
         \<and> ((i \<notin> set (questionsToProcess d skipExisting)
              \<or> (\<exists>e. explanation_outcome W parse i = Inl e)) \<longrightarrow>
             explanation (questions (st_data (fst (main W parse d batchSize skipExisting))) ! i)
               = explanation (questions d ! i))
         \<and> (\<forall>r. i \<in> set (questionsToProcess d skipExisting)
                  \<and> explanation_outcome W parse i = Inr r \<longrightarrow>
             explanation (questions (st_data (fst (main W parse d batchSize skipExisting))) ! i)
               = Text (result_explanation r)))
   \<and> st_data (fst (saveCheckpoint W st)) = st_data st"
proof -
  let ?P = "questionsToProcess d skipExisting"
  let ?S = "successes W parse ?P"
  have untouched: "explanation (questions (apply_explanations d ?S) ! i) = explanation (questions d ! i)"
    if "i < length (questions d)"
       "i \<notin> set ?P \<or> (\<exists>e. explanation_outcome W parse i = Inl e)" for i
  proof -
    from that(2) have "i \<notin> fst ` set ?S" by (auto simp: successes_iff)
    with that(1) show ?thesis by (rule apply_explanations_untouched)
  qed
  have written: "explanation (questions (apply_explanations d ?S) ! i) = Text (result_explanation r)"
    if "i < length (questions d)" "i \<in> set ?P" "explanation_outcome W parse i = Inr r" for i r
  proof (rule apply_explanations_written [OF that(1)])
    from that show "(i, result_explanation r) \<in> set ?S" by (auto simp: successes_iff)
    from that show "\<forall>e'. (i, e') \<in> set ?S \<longrightarrow> e' = result_explanation r"
      by (auto simp: successes_iff)
  qed
  show ?thesis
    unfolding main_data
    using apply_explanations_frame [of d ?S] apply_explanations_fields [of _ d ?S] untouched written
    by (simp add: saveCheckpoint_def)
qed

theorem backfill_frame_witness:
  "3 < length (questions example_paper)
   \<and> explanation_outcome example_world parse_explanation_response 3 = Inl (ModelCallError ''fetch failed'')
   \<and> explanation (questions (st_data (fst (main example_world parse_explanation_response
                                                example_paper (Some 2) False))) ! 3) = Text ''old''
   \<and> 1 \<notin> set (questionsToProcess example_paper False)
   \<and> explanation (questions (st_data (fst (main example_world parse_explanation_response
                                                example_paper (Some 2) False))) ! 1) = Absent
   \<and> 0 \<in> set (questionsToProcess example_paper False)
   \<and> explanation (questions (st_data (fst (main example_world parse_explanation_response
                                                example_paper (Some 2) False))) ! 0)
       = Text ''Median nerve.''"
proof -
  have h: "3 < length (questions example_paper) \<and> 1 < length (questions example_paper)
           \<and> 0 < length (questions example_paper)
           \<and> explanation_outcome example_world parse_explanation_response 3
               = Inl (ModelCallError ''fetch failed'')
           \<and> explanation_outcome example_world parse_explanation_response 0
               = Inr \<lparr>result_explanation = ''Median nerve.'', result_tokensUsed = 60\<rparr>
           \<and> 1 \<notin> set (questionsToProcess example_paper False)
           \<and> 0 \<in> set (questionsToProcess example_paper False)"
    by (simp add: example_explanations example_outcomes example_pending)
  from backfill_frame [of example_world parse_explanation_response example_paper "Some 2" False] h
  have "explanation (questions (st_data (fst (main example_world parse_explanation_response
                                                example_paper (Some 2) False))) ! 3)
           = explanation (questions example_paper ! 3)
        \<and> explanation (questions (st_data (fst (main example_world parse_explanation_response
                                                example_paper (Some 2) False))) ! 1)
           = explanation (questions example_paper ! 1)
        \<and> explanation (questions (st_data (fst (main example_world parse_explanation_response
                                                example_paper (Some 2) False))) ! 0)
           = Text (result_explanation \<lparr>result_explanation = ''Median nerve.'', result_tokensUsed = 60\<rparr>)"
    by blast
  with h show ?thesis by (simp add: example_explanations)
qed

end
